theory Spec2Isabelle
  imports Complex_Main "HOL-Library.Word"
begin

unbundle bit_operations_syntax

section \<open>Basic types\<close>

text \<open>
  A data member \<^verbatim>\<open>name_\<close> of a class is the record field \<open>name\<close>; the flag
  \<^verbatim>\<open>running_\<close>, which three classes have, carries the name of its class.

  An IPv4 address is the 32-bit value returned by \<^verbatim>\<open>net::ipv4::to_uint32\<close>; ports are
  \<^verbatim>\<open>uint16_t\<close>; the relaxed atomic counters are \<^verbatim>\<open>uint64_t\<close> and wrap on overflow.
  Clock readings are natural numbers of seconds; the code reads the clock itself, the model
  takes the reading as an argument.
\<close>

type_synonym ipv4 = "32 word"
type_synonym port = "16 word"
type_synonym u64 = "64 word"
type_synonym byte = "8 word"
type_synonym TimePoint = nat

definition UINT64_MAX :: u64 where
  "UINT64_MAX = - 1"

section \<open>Metrics: the latency tracker (metrics.hpp)\<close>

definition HISTOGRAM_SIZE :: nat where
  "HISTOGRAM_SIZE = 32"

record LatencyTracker =
  total_samples :: u64
  total_latency_ns :: u64
  min_latency_ns :: u64
  max_latency_ns :: u64
  histogram :: "u64 list"

text \<open>The member initialisers and the constructor body (all histogram buckets zero).\<close>

definition LatencyTracker_init :: LatencyTracker where
  "LatencyTracker_init =
     \<lparr>total_samples = 0, total_latency_ns = 0, min_latency_ns = UINT64_MAX,
      max_latency_ns = 0, histogram = replicate HISTOGRAM_SIZE 0\<rparr>"

text \<open>
  \<^verbatim>\<open>63 - __builtin_clzll(x)\<close> for \<^verbatim>\<open>x > 0\<close> is the index of the highest set bit.
\<close>

fun highest_bit :: "nat \<Rightarrow> nat" where
  "highest_bit n = (if n < 2 then 0 else Suc (highest_bit (n div 2)))"

declare highest_bit.simps [simp del]

definition histogram_bucket :: "u64 \<Rightarrow> nat" where
  "histogram_bucket ns = min (highest_bit (unat (ns OR 1)) div 2) (HISTOGRAM_SIZE - 1)"

text \<open>
  \<^verbatim>\<open>LatencyTracker::record\<close>. Run by one thread at a time, each compare-exchange loop
  stores \<^verbatim>\<open>ns\<close> when it improves on the current value and is left otherwise.
\<close>

definition LatencyTracker_record :: "u64 \<Rightarrow> LatencyTracker \<Rightarrow> LatencyTracker" where
  "LatencyTracker_record ns t =
     t\<lparr>total_samples := total_samples t + 1,
       total_latency_ns := total_latency_ns t + ns,
       min_latency_ns := (if ns < min_latency_ns t then ns else min_latency_ns t),
       max_latency_ns := (if ns > max_latency_ns t then ns else max_latency_ns t),
       histogram := (histogram t)[histogram_bucket ns :=
                       histogram t ! histogram_bucket ns + 1]\<rparr>"





subsection \<open>Calls of record that run at the same time\<close>

text \<open>
  The worker threads call \<^verbatim>\<open>record\<close> while other threads call \<^verbatim>\<open>getStats\<close>, and every
  access is a relaxed atomic operation of its own. A call of \<^verbatim>\<open>record\<close> is therefore a
  sequence of five steps: the addition to \<^verbatim>\<open>total_samples_\<close>, the addition to
  \<^verbatim>\<open>total_latency_ns_\<close>, the update of the minimum, the update of the maximum and the
  addition to the histogram bucket. Each compare-exchange loop takes effect at one
  instant, as the minimum (or maximum) of the stored value and the sample. A recorder is a
  call with its sample and the step it is about to take.
\<close>

datatype record_pc = AtSamples | AtTotal | AtMin | AtMax | AtBucket | Returned

record recorder =
  recorded_ns :: u64
  record_at :: record_pc

fun record_step :: "recorder \<Rightarrow> LatencyTracker \<Rightarrow> recorder \<times> LatencyTracker" where
  "record_step r t =
     (case record_at r of
        AtSamples \<Rightarrow> (r\<lparr>record_at := AtTotal\<rparr>, t\<lparr>total_samples := total_samples t + 1\<rparr>)
      | AtTotal \<Rightarrow>
          (r\<lparr>record_at := AtMin\<rparr>, t\<lparr>total_latency_ns := total_latency_ns t + recorded_ns r\<rparr>)
      | AtMin \<Rightarrow>
          (r\<lparr>record_at := AtMax\<rparr>,
           t\<lparr>min_latency_ns := (if recorded_ns r < min_latency_ns t then recorded_ns r
                                 else min_latency_ns t)\<rparr>)
      | AtMax \<Rightarrow>
          (r\<lparr>record_at := AtBucket\<rparr>,
           t\<lparr>max_latency_ns := (if recorded_ns r > max_latency_ns t then recorded_ns r
                                 else max_latency_ns t)\<rparr>)
      | AtBucket \<Rightarrow>
          (r\<lparr>record_at := Returned\<rparr>,
           t\<lparr>histogram := (histogram t)[histogram_bucket (recorded_ns r) :=
                              histogram t ! histogram_bucket (recorded_ns r) + 1]\<rparr>)
      | Returned \<Rightarrow> (r, t))"

declare record_step.simps [simp del]

text \<open>
  The calls in progress and the tracker they share. A schedule names, step by step, the
  call that takes the next step; the calls of a list of samples all start before their
  first step.
\<close>

definition thread_step ::
  "nat \<Rightarrow> recorder list \<times> LatencyTracker \<Rightarrow> recorder list \<times> LatencyTracker" where
  "thread_step i st =
     (if i < length (fst st)
      then (let res = record_step (fst st ! i) (snd st) in ((fst st)[i := fst res], snd res))
      else st)"

definition run_schedule ::
  "nat list \<Rightarrow> recorder list \<times> LatencyTracker \<Rightarrow> recorder list \<times> LatencyTracker" where
  "run_schedule sched st = fold thread_step sched st"

definition calls_of :: "u64 list \<Rightarrow> recorder list" where
  "calls_of xs = map (\<lambda>x. \<lparr>recorded_ns = x, record_at = AtSamples\<rparr>) xs"




section \<open>Detection configuration (config.hpp)\<close>

text \<open>Windows are in seconds, \<^verbatim>\<open>auto_block_duration\<close> is in minutes, as in the struct.\<close>

record DetectionConfig =
  port_scan_threshold :: "32 word"
  port_scan_window :: nat
  dos_packet_threshold :: "32 word"
  dos_byte_threshold :: u64
  dos_window :: nat
  write_read_ratio_threshold :: real
  exception_rate_threshold :: "32 word"
  packet_size_deviation_threshold :: real
  whitelisted_ips :: "ipv4 list"
  blacklisted_ips :: "ipv4 list"
  monitored_ports :: "port list"
  auto_block_enabled :: bool
  auto_block_duration :: nat
  max_concurrent_blocks :: "32 word"
  packet_buffer_size :: nat
  log_queue_size :: nat
  worker_threads :: "32 word"

definition createDefault :: DetectionConfig where
  "createDefault =
     \<lparr>port_scan_threshold = 10, port_scan_window = 10,
      dos_packet_threshold = 1000, dos_byte_threshold = 10000000, dos_window = 5,
      write_read_ratio_threshold = 5, exception_rate_threshold = 10,
      packet_size_deviation_threshold = 3,
      whitelisted_ips = [], blacklisted_ips = [], monitored_ports = [502, 20000],
      auto_block_enabled = True, auto_block_duration = 60, max_concurrent_blocks = 1000,
      packet_buffer_size = 4096, log_queue_size = 8192, worker_threads = 4\<rparr>"

definition createConservative :: DetectionConfig where
  "createConservative =
     createDefault\<lparr>dos_packet_threshold := 2000, port_scan_threshold := 20,
       write_read_ratio_threshold := 10, auto_block_duration := 30\<rparr>"

definition createAggressive :: DetectionConfig where
  "createAggressive =
     createDefault\<lparr>dos_packet_threshold := 500, port_scan_threshold := 5,
       write_read_ratio_threshold := 2, auto_block_duration := 120\<rparr>"

definition isValid :: "DetectionConfig \<Rightarrow> bool" where
  "isValid cfg \<longleftrightarrow>
     dos_packet_threshold cfg > 0 \<and> dos_byte_threshold cfg > 0
     \<and> port_scan_threshold cfg > 0 \<and> max_concurrent_blocks cfg > 0"

section \<open>SCADA types (types.hpp, as listed in the API reference)\<close>

datatype ProtocolType = MODBUS_TCP | DNP3 | IEC_104 | OPC_UA | UNKNOWN

datatype AttackType =
  NONE | PORT_SCAN | DOS_FLOOD | MODBUS_COMMAND_INJECTION | UNAUTHORIZED_WRITE
  | ABNORMAL_TRAFFIC_PATTERN | SUSPICIOUS_FUNCTION_CODE | MALFORMED_PACKET
  | REPLAY_ATTACK | MAN_IN_THE_MIDDLE | BRUTE_FORCE

datatype ThreatLevel = INFO | LOW | MEDIUM | HIGH | CRITICAL

text \<open>The numeric value of the enumerator, for the comparisons on severity.\<close>

fun ThreatLevel_rank :: "ThreatLevel \<Rightarrow> nat" where
  "ThreatLevel_rank INFO = 0"
| "ThreatLevel_rank LOW = 1"
| "ThreatLevel_rank MEDIUM = 2"
| "ThreatLevel_rank HIGH = 3"
| "ThreatLevel_rank CRITICAL = 4"

record PacketMetadata =
  timestamp :: TimePoint
  source_ip :: ipv4
  dest_ip :: ipv4
  source_port :: port
  dest_port :: port
  protocol :: ProtocolType
  packet_size :: nat
  transaction_id :: "16 word"
  unit_id :: "8 word"
  function_code :: "8 word"
  register_address :: "16 word"
  register_count :: "16 word"
  is_response :: bool
  has_exception :: bool
  is_malformed :: bool

text \<open>
  Modelled from the spec: the default member initialisers of \<^verbatim>\<open>PacketMetadata\<close> are in
  types.hpp, which is not among the sources. A default-constructed value carries no
  protocol (\<open>UNKNOWN\<close>), zero numbers and cleared flags.
\<close>

definition PacketMetadata_default :: PacketMetadata where
  "PacketMetadata_default =
     \<lparr>timestamp = 0, source_ip = 0, dest_ip = 0, source_port = 0, dest_port = 0,
      protocol = UNKNOWN, packet_size = 0, transaction_id = 0, unit_id = 0,
      function_code = 0, register_address = 0, register_count = 0,
      is_response = False, has_exception = False, is_malformed = False\<rparr>"

record ThreatAlert =
  alert_timestamp :: TimePoint
  alert_source_ip :: ipv4
  alert_dest_ip :: ipv4
  attack_type :: AttackType
  severity :: ThreatLevel
  description :: string
  confidence_score :: real
  auto_mitigated :: bool

datatype MitigationAction = LOG_ONLY | DROP_PACKET | BLOCK_IP

section \<open>Address cache (bloom_filter.hpp)\<close>

text \<open>
  Modelled from the spec: the class \<^verbatim>\<open>perf::BloomFilter\<close> is not among the sources. The
  engine declares both caches as \<^verbatim>\<open>BloomFilter<8192, 3>\<close>: 8192 bits and 3 hash
  functions. The filter is the set of its set bits; \<open>add\<close> sets the bits of an address,
  \<open>contains\<close> tests them, and nothing clears a bit. The hash functions themselves are a
  parameter: \<open>h k x\<close> is the value of hash function \<open>k\<close> at address \<open>x\<close>.
\<close>

definition BLOOM_BITS :: nat where
  "BLOOM_BITS = 8192"

definition BLOOM_HASHES :: nat where
  "BLOOM_HASHES = 3"

record BloomFilter =
  bits :: "nat set"

definition BloomFilter_init :: BloomFilter where
  "BloomFilter_init = \<lparr>bits = {}\<rparr>"

definition bloom_positions :: "(nat \<Rightarrow> ipv4 \<Rightarrow> nat) \<Rightarrow> ipv4 \<Rightarrow> nat list" where
  "bloom_positions h x = map (\<lambda>k. h k x mod BLOOM_BITS) [0..<BLOOM_HASHES]"

definition BloomFilter_add :: "(nat \<Rightarrow> ipv4 \<Rightarrow> nat) \<Rightarrow> ipv4 \<Rightarrow> BloomFilter \<Rightarrow> BloomFilter" where
  "BloomFilter_add h x bf = bf\<lparr>bits := bits bf \<union> set (bloom_positions h x)\<rparr>"

definition BloomFilter_contains :: "(nat \<Rightarrow> ipv4 \<Rightarrow> nat) \<Rightarrow> BloomFilter \<Rightarrow> ipv4 \<Rightarrow> bool" where
  "BloomFilter_contains h bf x = list_all (\<lambda>i. i \<in> bits bf) (bloom_positions h x)"

section \<open>Mitigation engine (mitigation_engine.hpp)\<close>

text \<open>
  Modelled from the spec: the class \<^verbatim>\<open>MitigationEngine\<close> is not among the sources; the
  engine only calls it. The model follows the mitigation table of the specification: an
  authoritative table of block records keyed by address, and the whitelist set. The
  struct \<^verbatim>\<open>BlockedIP\<close> is the one of the API reference.
\<close>

record BlockedIP =
  ip :: ipv4
  blocked_at :: TimePoint
  expires_at :: TimePoint
  reason :: AttackType
  violation_count :: "32 word"
  permanent :: bool

definition isExpired :: "BlockedIP \<Rightarrow> TimePoint \<Rightarrow> bool" where
  "isExpired r now \<longleftrightarrow> \<not> permanent r \<and> now > expires_at r"

record MitigationEngine =
  mitigation_config :: DetectionConfig
  blocked_ips :: "(ipv4 \<times> BlockedIP) list"
  whitelist :: "ipv4 set"

definition MitigationEngine_init :: "DetectionConfig \<Rightarrow> MitigationEngine" where
  "MitigationEngine_init cfg =
     \<lparr>mitigation_config = cfg, blocked_ips = [], whitelist = set (whitelisted_ips cfg)\<rparr>"

definition isWhitelisted :: "MitigationEngine \<Rightarrow> ipv4 \<Rightarrow> bool" where
  "isWhitelisted m a \<longleftrightarrow> a \<in> whitelist m"

text \<open>
  Modelled from the spec: \<open>is_blocked(addr, now)\<close> is true iff a non-expired record
  exists; a record that is not permanent is expired once \<open>now > expires_at\<close>.
\<close>

definition isBlocked :: "MitigationEngine \<Rightarrow> ipv4 \<Rightarrow> TimePoint \<Rightarrow> bool" where
  "isBlocked m a now =
     (case map_of (blocked_ips m) a of None \<Rightarrow> False | Some r \<Rightarrow> \<not> isExpired r now)"

text \<open>
  Modelled from the spec: the record to evict when the table is full is the one with the
  earliest \<open>expires_at\<close> among those that are not permanent (the first such in table order
  on a tie).
\<close>

fun eviction_candidate :: "(ipv4 \<times> BlockedIP) list \<Rightarrow> ipv4 option" where
  "eviction_candidate [] = None"
| "eviction_candidate ((a, r) # rest) =
     (if permanent r then eviction_candidate rest
      else case eviction_candidate rest of
             None \<Rightarrow> Some a
           | Some b \<Rightarrow>
               (case map_of rest b of
                  None \<Rightarrow> Some a
                | Some rb \<Rightarrow> if expires_at rb < expires_at r then Some b else Some a))"

definition delete_key :: "ipv4 \<Rightarrow> (ipv4 \<times> BlockedIP) list \<Rightarrow> (ipv4 \<times> BlockedIP) list" where
  "delete_key a tbl = filter (\<lambda>e. fst e \<noteq> a) tbl"

text \<open>
  Modelled from the spec: \<open>block(addr, reason, duration, now)\<close> inserts or extends. An
  existing record gets the later of its expiry and \<open>now + duration\<close> and one more
  violation. A new record at capacity evicts the candidate above; when there is none the
  call is refused silently. The duration is in minutes.
\<close>

definition MitigationEngine_blockIP ::
  "ipv4 \<Rightarrow> AttackType \<Rightarrow> nat \<Rightarrow> TimePoint \<Rightarrow> MitigationEngine \<Rightarrow> MitigationEngine" where
  "MitigationEngine_blockIP a why duration now m =
     (let fresh = \<lparr>ip = a, blocked_at = now, expires_at = now + duration * 60,
                   reason = why, violation_count = 1, permanent = False\<rparr> in
      case map_of (blocked_ips m) a of
        Some r \<Rightarrow>
          m\<lparr>blocked_ips :=
              (a, r\<lparr>expires_at := max (expires_at r) (now + duration * 60),
                    violation_count := violation_count r + 1\<rparr>)
              # delete_key a (blocked_ips m)\<rparr>
      | None \<Rightarrow>
          if length (blocked_ips m) < unat (max_concurrent_blocks (mitigation_config m))
          then m\<lparr>blocked_ips := (a, fresh) # blocked_ips m\<rparr>
          else (case eviction_candidate (blocked_ips m) of
                  None \<Rightarrow> m
                | Some b \<Rightarrow> m\<lparr>blocked_ips := (a, fresh) # delete_key b (blocked_ips m)\<rparr>))"

text \<open>
  Modelled from the spec: \<open>unblock\<close> removes the record and tells whether there was one,
  \<open>cleanup\<close> removes the expired records, the whitelist is a set with insertion and
  removal, and the snapshot lists the records.
\<close>

definition MitigationEngine_unblockIP :: "ipv4 \<Rightarrow> MitigationEngine \<Rightarrow> bool \<times> MitigationEngine" where
  "MitigationEngine_unblockIP a m =
     (a \<in> fst ` set (blocked_ips m), m\<lparr>blocked_ips := delete_key a (blocked_ips m)\<rparr>)"

definition MitigationEngine_cleanup :: "TimePoint \<Rightarrow> MitigationEngine \<Rightarrow> MitigationEngine" where
  "MitigationEngine_cleanup now m =
     m\<lparr>blocked_ips := filter (\<lambda>e. \<not> isExpired (snd e) now) (blocked_ips m)\<rparr>"

definition MitigationEngine_addWhitelist :: "ipv4 \<Rightarrow> MitigationEngine \<Rightarrow> MitigationEngine" where
  "MitigationEngine_addWhitelist a m = m\<lparr>whitelist := insert a (whitelist m)\<rparr>"

definition MitigationEngine_removeWhitelist :: "ipv4 \<Rightarrow> MitigationEngine \<Rightarrow> MitigationEngine" where
  "MitigationEngine_removeWhitelist a m = m\<lparr>whitelist := whitelist m - {a}\<rparr>"

definition getBlockedIPs :: "MitigationEngine \<Rightarrow> BlockedIP list" where
  "getBlockedIPs m = map snd (blocked_ips m)"

text \<open>
  Modelled from the spec: the mitigation policy applied to one alert. Severity HIGH or
  above with auto-block enabled blocks the alert's source for \<^verbatim>\<open>auto_block_duration\<close>;
  severity MEDIUM drops the current packet only; below MEDIUM the alert is only logged.
  For severity HIGH or above with auto-block disabled none of the three rules applies, so
  nothing is done.
\<close>

definition mitigate ::
  "ThreatAlert \<Rightarrow> TimePoint \<Rightarrow> MitigationEngine \<Rightarrow> MitigationAction \<times> MitigationEngine" where
  "mitigate threat now m =
     (if ThreatLevel_rank (severity threat) \<ge> ThreatLevel_rank HIGH
         \<and> auto_block_enabled (mitigation_config m)
      then (BLOCK_IP,
            MitigationEngine_blockIP (alert_source_ip threat) (attack_type threat)
              (auto_block_duration (mitigation_config m)) now m)
      else if severity threat = MEDIUM then (DROP_PACKET, m)
      else (LOG_ONLY, m))"

section \<open>Statistics (statistics.hpp)\<close>

record Statistics =
  packets_processed :: u64
  packets_allowed :: u64
  packets_dropped :: u64
  bytes_processed :: u64
  threats_detected :: u64
  threats_mitigated :: u64
  total_blocks :: u64
  active_blocks :: u64
  start_time :: TimePoint

definition Statistics_init :: "TimePoint \<Rightarrow> Statistics" where
  "Statistics_init now =
     \<lparr>packets_processed = 0, packets_allowed = 0, packets_dropped = 0, bytes_processed = 0,
      threats_detected = 0, threats_mitigated = 0, total_blocks = 0, active_blocks = 0,
      start_time = now\<rparr>"

definition incrementPacketsProcessed :: "Statistics \<Rightarrow> Statistics" where
  "incrementPacketsProcessed st = st\<lparr>packets_processed := packets_processed st + 1\<rparr>"

definition incrementPacketsAllowed :: "Statistics \<Rightarrow> Statistics" where
  "incrementPacketsAllowed st = st\<lparr>packets_allowed := packets_allowed st + 1\<rparr>"

definition incrementPacketsDropped :: "Statistics \<Rightarrow> Statistics" where
  "incrementPacketsDropped st = st\<lparr>packets_dropped := packets_dropped st + 1\<rparr>"

definition incrementThreatsDetected :: "Statistics \<Rightarrow> Statistics" where
  "incrementThreatsDetected st = st\<lparr>threats_detected := threats_detected st + 1\<rparr>"

section \<open>Metrics: throughput tracker and manager (metrics.hpp)\<close>

definition WINDOW_SIZE :: nat where
  "WINDOW_SIZE = 60"

record Window =
  packets :: u64
  bytes :: u64
  timestamp_sec :: u64

record ThroughputTracker =
  windows :: "Window list"

definition ThroughputTracker_init :: ThroughputTracker where
  "ThroughputTracker_init =
     \<lparr>windows = replicate WINDOW_SIZE \<lparr>packets = 0, bytes = 0, timestamp_sec = 0\<rparr>\<rparr>"

text \<open>
  \<^verbatim>\<open>ThroughputTracker::record\<close>; \<open>now_sec\<close> is the clock reading in seconds. Run by one
  thread at a time the compare-exchange on the slot's timestamp succeeds.
\<close>

definition ThroughputTracker_record :: "u64 \<Rightarrow> u64 \<Rightarrow> ThroughputTracker \<Rightarrow> ThroughputTracker" where
  "ThroughputTracker_record now_sec n t =
     (let idx = unat now_sec mod WINDOW_SIZE;
          w = windows t ! idx;
          w1 = (if timestamp_sec w \<noteq> now_sec
                then w\<lparr>timestamp_sec := now_sec, packets := 0, bytes := 0\<rparr> else w)
      in t\<lparr>windows := (windows t)[idx := w1\<lparr>packets := packets w1 + 1,
                                               bytes := bytes w1 + n\<rparr>]\<rparr>)"

record MetricsManager =
  packet_processing_latency :: LatencyTracker
  threat_detection_latency :: LatencyTracker
  throughput :: ThroughputTracker

definition MetricsManager_init :: MetricsManager where
  "MetricsManager_init =
     \<lparr>packet_processing_latency = LatencyTracker_init,
      threat_detection_latency = LatencyTracker_init,
      throughput = ThroughputTracker_init\<rparr>"

section \<open>Asynchronous logger (logger.hpp)\<close>

datatype Level =
  Level_TRACE | Level_DEBUG | Level_INFO | Level_WARNING | Level_ERROR | Level_CRITICAL

fun Level_rank :: "Level \<Rightarrow> nat" where
  "Level_rank Level_TRACE = 0"
| "Level_rank Level_DEBUG = 1"
| "Level_rank Level_INFO = 2"
| "Level_rank Level_WARNING = 3"
| "Level_rank Level_ERROR = 4"
| "Level_rank Level_CRITICAL = 5"

record LogEntry =
  log_timestamp :: TimePoint
  level :: Level
  source :: string
  message :: string
  threat :: "ThreatAlert option"

text \<open>
  Modelled from the spec: \<^verbatim>\<open>perf::LockFreeRingBuffer\<close> is not among the sources. The
  logger declares its ring with 8192 slots; the model is a first-in first-out list that
  refuses a push once it holds that many entries.
\<close>

definition LOG_QUEUE_CAPACITY :: nat where
  "LOG_QUEUE_CAPACITY = 8192"

text \<open>
  The log file is the list of entries written to it, oldest first (the text rendering of
  \<^verbatim>\<open>LogEntry::toString\<close> is not modelled); \<open>file_open\<close> is the state of the stream. The
  console is the list of entries echoed to standard output.
\<close>

record Logger =
  log_queue :: "LogEntry list"
  logger_running :: bool
  log_file :: "LogEntry list"
  file_open :: bool
  console :: "LogEntry list"
  filename :: string
  min_level :: Level
  console_output :: bool
  logs_written :: u64
  logs_dropped :: u64

datatype error = runtime_error string

text \<open>
  The constructor opens the file and throws when that fails; whether the file opens is
  the argument \<open>opens\<close>.
\<close>

definition Logger_init :: "string \<Rightarrow> Level \<Rightarrow> bool \<Rightarrow> bool \<Rightarrow> error + Logger" where
  "Logger_init fname lvl echo opens =
     (if \<not> opens then Inl (runtime_error (''Failed to open log file: '' @ fname))
      else Inr \<lparr>log_queue = [], logger_running = False, log_file = [], file_open = True,
                console = [], filename = fname, min_level = lvl,
                console_output = echo, logs_written = 0, logs_dropped = 0\<rparr>)"

definition Logger_start :: "Logger \<Rightarrow> Logger" where
  "Logger_start lg = (if logger_running lg then lg else lg\<lparr>logger_running := True\<rparr>)"

definition writeLog :: "LogEntry \<Rightarrow> Logger \<Rightarrow> Logger" where
  "writeLog entry lg =
     (let lg1 = (if file_open lg then lg\<lparr>log_file := log_file lg @ [entry]\<rparr> else lg);
          lg2 = (if console_output lg1 then lg1\<lparr>console := console lg1 @ [entry]\<rparr> else lg1)
      in lg2\<lparr>logs_written := logs_written lg2 + 1\<rparr>)"

definition Logger_log ::
  "TimePoint \<Rightarrow> Level \<Rightarrow> string \<Rightarrow> string \<Rightarrow> ThreatAlert option \<Rightarrow> Logger \<Rightarrow> Logger" where
  "Logger_log now lvl src msg thr lg =
     (if Level_rank lvl < Level_rank (min_level lg) then lg
      else if length (log_queue lg) < LOG_QUEUE_CAPACITY
      then lg\<lparr>log_queue := log_queue lg @
                 [\<lparr>log_timestamp = now, level = lvl, source = src, message = msg,
                   threat = thr\<rparr>]\<rparr>
      else lg\<lparr>logs_dropped := logs_dropped lg + 1\<rparr>)"

definition Logger_info :: "TimePoint \<Rightarrow> string \<Rightarrow> string \<Rightarrow> Logger \<Rightarrow> Logger" where
  "Logger_info now src msg = Logger_log now Level_INFO src msg None"

definition Logger_warning :: "TimePoint \<Rightarrow> string \<Rightarrow> string \<Rightarrow> Logger \<Rightarrow> Logger" where
  "Logger_warning now src msg = Logger_log now Level_WARNING src msg None"

definition Logger_critical ::
  "TimePoint \<Rightarrow> string \<Rightarrow> string \<Rightarrow> ThreatAlert \<Rightarrow> Logger \<Rightarrow> Logger" where
  "Logger_critical now src msg thr = Logger_log now Level_CRITICAL src msg (Some thr)"

text \<open>
  One iteration of \<^verbatim>\<open>writerLoop\<close> that found the logger running: pop and write, or
  sleep on an empty queue.
\<close>

definition writer_iteration :: "Logger \<Rightarrow> Logger" where
  "writer_iteration lg =
     (case log_queue lg of
        [] \<Rightarrow> lg
      | entry # rest \<Rightarrow> writeLog entry (lg\<lparr>log_queue := rest\<rparr>))"

text \<open>The flush loop of \<^verbatim>\<open>stop\<close>: \<^verbatim>\<open>while (log_queue.pop(entry)) writeLog(entry)\<close>.\<close>

fun flush_entries :: "LogEntry list \<Rightarrow> Logger \<Rightarrow> Logger" where
  "flush_entries [] lg = lg"
| "flush_entries (entry # rest) lg = flush_entries rest (writeLog entry lg)"

definition flush_remaining :: "Logger \<Rightarrow> Logger" where
  "flush_remaining lg = flush_entries (log_queue lg) (lg\<lparr>log_queue := []\<rparr>)"

text \<open>
  \<^verbatim>\<open>Logger::stop\<close>. The call returns at once when the logger is not running. Otherwise
  it clears the flag and joins the writer thread, which completes \<open>k\<close> more iterations of
  its loop before it reads the cleared flag and leaves; then the remaining entries are
  flushed and the file is closed.
\<close>

definition Logger_stop :: "nat \<Rightarrow> Logger \<Rightarrow> Logger" where
  "Logger_stop k lg =
     (if \<not> logger_running lg then lg
      else (let lg1 = lg\<lparr>logger_running := False\<rparr>;
                lg2 = (writer_iteration ^^ k) lg1;
                lg3 = flush_remaining lg2
            in lg3\<lparr>file_open := False\<rparr>))"

section \<open>The parts of the engine that are not among the sources\<close>

text \<open>
  Modelled from the spec: the hash functions of the bloom filter, the string conversions,
  the Modbus test and parser, the behavioural analyzer (with its state of type \<open>'a\<close>) and
  the rate pre-check of the mitigation engine are called by the engine, and their code is
  not among the sources. They are parameters of the model, collected in one record.
\<close>

record 'a components =
  bloom_hash :: "nat \<Rightarrow> ipv4 \<Rightarrow> nat"
  ipv4_toString :: "ipv4 \<Rightarrow> string"
  AttackType_to_string :: "AttackType \<Rightarrow> string"
  MitigationAction_to_string :: "MitigationAction \<Rightarrow> string"
  isModbusTCP :: "byte list \<Rightarrow> bool"
  ModbusParser_parse :: "byte list \<Rightarrow> PacketMetadata option"
  BehavioralAnalyzer_init :: "DetectionConfig \<Rightarrow> 'a"
  analyze :: "'a \<Rightarrow> PacketMetadata \<Rightarrow> ThreatAlert list \<times> 'a"
  shouldDropPacket :: "MitigationEngine \<Rightarrow> PacketMetadata \<Rightarrow> bool"

text \<open>
  The clock readings of one call of \<^verbatim>\<open>processPacket\<close>: the time of day in seconds, the
  nanoseconds the analyzer took, and the nanoseconds from the start of the call to the
  point where the latency is recorded.
\<close>

record readings =
  now :: TimePoint
  threat_elapsed_ns :: u64
  elapsed_ns :: u64

section \<open>The engine (grid_watcher.hpp)\<close>

record 'a GridWatcher =
  config :: DetectionConfig
  analyzer :: 'a
  mitigation :: MitigationEngine
  logger :: Logger
  stats :: Statistics
  metrics :: MetricsManager
  blocked_ips_cache :: BloomFilter
  whitelisted_ips_cache :: BloomFilter
  watcher_running :: bool

text \<open>
  The constructor. Its only failure is the logger's: the log file that does not open.
  The configuration is copied into the members and is not checked.
\<close>

definition GridWatcher_init ::
  "'a components \<Rightarrow> DetectionConfig \<Rightarrow> string \<Rightarrow> bool \<Rightarrow> TimePoint \<Rightarrow> error + 'a GridWatcher" where
  "GridWatcher_init env cfg log_file_name opens t =
     (case Logger_init log_file_name Level_INFO True opens of
        Inl e \<Rightarrow> Inl e
      | Inr lg \<Rightarrow>
          Inr \<lparr>config = cfg,
               analyzer = BehavioralAnalyzer_init env cfg,
               mitigation = MitigationEngine_init cfg,
               logger = Logger_info t ''GridWatcher'' ''Grid-Watcher initialized successfully''
                          (Logger_start lg),
               stats = Statistics_init t,
               metrics = MetricsManager_init,
               blocked_ips_cache = BloomFilter_init,
               whitelisted_ips_cache =
                 fold (BloomFilter_add (bloom_hash env)) (whitelisted_ips cfg) BloomFilter_init,
               watcher_running = False\<rparr>)"

text \<open>
  \<^verbatim>\<open>buildPacketMetadata\<close>. The second component of the result records whether
  \<^verbatim>\<open>ModbusParser::parse\<close> was called.
\<close>

definition buildPacketMetadata ::
  "'a components \<Rightarrow> 'a GridWatcher \<Rightarrow> TimePoint \<Rightarrow> byte list \<Rightarrow> ipv4 \<Rightarrow> ipv4 \<Rightarrow> port \<Rightarrow> port
     \<Rightarrow> PacketMetadata \<times> bool" where
  "buildPacketMetadata env s t packet_data src dst sport dport =
     (let meta = PacketMetadata_default\<lparr>source_ip := src, dest_ip := dst, source_port := sport,
                   dest_port := dport, packet_size := length packet_data, timestamp := t\<rparr>
      in if dport = 502 \<or> sport = 502 then
           (if isModbusTCP env packet_data then
              (case ModbusParser_parse env packet_data of
                 Some parsed \<Rightarrow>
                   (parsed\<lparr>source_ip := src, dest_ip := dst, source_port := sport,
                           dest_port := dport, protocol := MODBUS_TCP\<rparr>, True)
               | None \<Rightarrow> (meta\<lparr>is_malformed := True, protocol := MODBUS_TCP\<rparr>, True))
            else (meta\<lparr>is_malformed := True, protocol := MODBUS_TCP\<rparr>, False))
         else (meta, False))"

definition recordLatency :: "readings \<Rightarrow> 'a GridWatcher \<Rightarrow> 'a GridWatcher" where
  "recordLatency rd s =
     s\<lparr>metrics := (metrics s)\<lparr>packet_processing_latency :=
          LatencyTracker_record (elapsed_ns rd) (packet_processing_latency (metrics s))\<rparr>\<rparr>"

definition record_throughput :: "readings \<Rightarrow> nat \<Rightarrow> 'a GridWatcher \<Rightarrow> 'a GridWatcher" where
  "record_throughput rd n s =
     s\<lparr>metrics := (metrics s)\<lparr>throughput :=
          ThroughputTracker_record (of_nat (now rd)) (of_nat n) (throughput (metrics s))\<rparr>\<rparr>"

text \<open>
  \<^verbatim>\<open>handleMitigationAction\<close>, the callback the constructor registers with the mitigation
  engine; the engine calls it with each alert it mitigates and the action it chose.
\<close>

definition handleMitigationAction ::
  "'a components \<Rightarrow> TimePoint \<Rightarrow> ThreatAlert \<Rightarrow> MitigationAction \<Rightarrow> 'a GridWatcher \<Rightarrow> 'a GridWatcher" where
  "handleMitigationAction env t alert action s =
     (let msg = ''Mitigation: '' @ MitigationAction_to_string env action @ '' for ''
                @ ipv4_toString env (alert_source_ip alert) @ '' due to ''
                @ AttackType_to_string env (attack_type alert)
      in if action = BLOCK_IP
         then s\<lparr>logger := Logger_warning t ''Mitigation'' msg (logger s)\<rparr>
         else s\<lparr>logger := Logger_info t ''Mitigation'' msg (logger s)\<rparr>)"

text \<open>The loop over the alerts of one packet, with the flag \<^verbatim>\<open>should_drop\<close>.\<close>

fun process_threats ::
  "'a components \<Rightarrow> readings \<Rightarrow> ipv4 \<Rightarrow> ThreatAlert list \<Rightarrow> bool \<times> 'a GridWatcher
     \<Rightarrow> bool \<times> 'a GridWatcher" where
  "process_threats env rd src [] acc = acc"
| "process_threats env rd src (thr # rest) (should_drop, s) =
     (let s1 = s\<lparr>stats := incrementThreatsDetected (stats s)\<rparr>;
          s2 = s1\<lparr>logger := Logger_critical (now rd) ''ThreatDetector'' (description thr) thr
                               (logger s1)\<rparr>;
          res = mitigate thr (now rd) (mitigation s2);
          action = fst res;
          s3 = handleMitigationAction env (now rd) thr action (s2\<lparr>mitigation := snd res\<rparr>);
          s4 = (if action = BLOCK_IP
                then s3\<lparr>blocked_ips_cache :=
                          BloomFilter_add (bloom_hash env) src (blocked_ips_cache s3)\<rparr>
                else s3)
      in process_threats env rd src rest
           (should_drop \<or> action = DROP_PACKET \<or> action = BLOCK_IP, s4))"

text \<open>
  \<^verbatim>\<open>processPacket\<close> after the two fast paths: metadata, rate pre-check, analysis,
  mitigation, final statistics.
\<close>

definition process_pipeline ::
  "'a components \<Rightarrow> readings \<Rightarrow> byte list \<Rightarrow> ipv4 \<Rightarrow> ipv4 \<Rightarrow> port \<Rightarrow> port \<Rightarrow> 'a GridWatcher
     \<Rightarrow> bool \<times> 'a GridWatcher" where
  "process_pipeline env rd packet_data src dst sport dport s =
     (let meta = fst (buildPacketMetadata env s (now rd) packet_data src dst sport dport)
      in if shouldDropPacket env (mitigation s) meta
         then (False, recordLatency rd (s\<lparr>stats := incrementPacketsDropped (stats s)\<rparr>))
         else
           (let found = analyze env (analyzer s) meta;
                s1 = s\<lparr>analyzer := snd found,
                       metrics := (metrics s)\<lparr>threat_detection_latency :=
                         LatencyTracker_record (threat_elapsed_ns rd)
                           (threat_detection_latency (metrics s))\<rparr>\<rparr>;
                looped = process_threats env rd src (fst found) (False, s1);
                s2 = snd looped
            in if fst looped
               then (False, recordLatency rd (s2\<lparr>stats := incrementPacketsDropped (stats s2)\<rparr>))
               else (True, recordLatency rd
                       (record_throughput rd (length packet_data)
                          (s2\<lparr>stats := incrementPacketsAllowed (stats s2)\<rparr>)))))"

text \<open>
  The two fast paths of \<^verbatim>\<open>processPacket\<close>, from the state in which the packet has been
  counted as processed: the allow on a whitelist cache hit, and the drop on a confirmed
  block.
\<close>

definition whitelist_fast_path ::
  "readings \<Rightarrow> byte list \<Rightarrow> 'a GridWatcher \<Rightarrow> bool \<times> 'a GridWatcher" where
  "whitelist_fast_path rd packet_data s =
     (True, record_throughput rd (length packet_data)
              (s\<lparr>stats := incrementPacketsAllowed (stats s)\<rparr>))"

definition block_short_circuit :: "readings \<Rightarrow> 'a GridWatcher \<Rightarrow> bool \<times> 'a GridWatcher" where
  "block_short_circuit rd s =
     (False, recordLatency rd (s\<lparr>stats := incrementPacketsDropped (stats s)\<rparr>))"

text \<open>\<^verbatim>\<open>processPacket\<close>: the result \<open>True\<close> is ALLOW, \<open>False\<close> is DROP.\<close>

definition processPacket ::
  "'a components \<Rightarrow> readings \<Rightarrow> byte list \<Rightarrow> ipv4 \<Rightarrow> ipv4 \<Rightarrow> port \<Rightarrow> port \<Rightarrow> 'a GridWatcher
     \<Rightarrow> bool \<times> 'a GridWatcher" where
  "processPacket env rd packet_data src dst sport dport s0 =
     (let s = s0\<lparr>stats := incrementPacketsProcessed (stats s0)\<rparr>
      in if BloomFilter_contains (bloom_hash env) (whitelisted_ips_cache s) src
         then whitelist_fast_path rd packet_data s
         else if BloomFilter_contains (bloom_hash env) (blocked_ips_cache s) src
         then (if isBlocked (mitigation s) src (now rd)
               then block_short_circuit rd s
               else process_pipeline env rd packet_data src dst sport dport s)
         else process_pipeline env rd packet_data src dst sport dport s)"

subsection \<open>Manual address management\<close>

definition blockIP :: "'a components \<Rightarrow> TimePoint \<Rightarrow> ipv4 \<Rightarrow> AttackType \<Rightarrow> 'a GridWatcher \<Rightarrow> 'a GridWatcher" where
  "blockIP env t a why s =
     s\<lparr>mitigation := MitigationEngine_blockIP a why (auto_block_duration (config s)) t
                        (mitigation s),
       blocked_ips_cache := BloomFilter_add (bloom_hash env) a (blocked_ips_cache s),
       logger := Logger_warning t ''ManualControl''
                   (''IP manually blocked: '' @ ipv4_toString env a) (logger s)\<rparr>"

text \<open>
  The first two statements of \<^verbatim>\<open>blockIP\<close>, each on its own: the write of the record
  into the table, and the write of the address into the blocked cache. Another thread
  that processes a packet between the two reads the state the first one leaves.
\<close>

definition blockIP_table :: "TimePoint \<Rightarrow> ipv4 \<Rightarrow> AttackType \<Rightarrow> 'a GridWatcher \<Rightarrow> 'a GridWatcher" where
  "blockIP_table t a why s =
     s\<lparr>mitigation := MitigationEngine_blockIP a why (auto_block_duration (config s)) t
                        (mitigation s)\<rparr>"

definition blockIP_cache :: "'a components \<Rightarrow> ipv4 \<Rightarrow> 'a GridWatcher \<Rightarrow> 'a GridWatcher" where
  "blockIP_cache env a s =
     s\<lparr>blocked_ips_cache := BloomFilter_add (bloom_hash env) a (blocked_ips_cache s)\<rparr>"

definition blockIP_log :: "'a components \<Rightarrow> TimePoint \<Rightarrow> ipv4 \<Rightarrow> 'a GridWatcher \<Rightarrow> 'a GridWatcher" where
  "blockIP_log env t a s =
     s\<lparr>logger := Logger_warning t ''ManualControl''
                   (''IP manually blocked: '' @ ipv4_toString env a) (logger s)\<rparr>"

definition unblockIP :: "'a components \<Rightarrow> TimePoint \<Rightarrow> ipv4 \<Rightarrow> 'a GridWatcher \<Rightarrow> 'a GridWatcher" where
  "unblockIP env t a s =
     (let res = MitigationEngine_unblockIP a (mitigation s);
          s1 = s\<lparr>mitigation := snd res\<rparr>
      in if fst res
         then s1\<lparr>logger := Logger_info t ''ManualControl''
                              (''IP manually unblocked: '' @ ipv4_toString env a) (logger s1)\<rparr>
         else s1)"

definition addWhitelist :: "'a components \<Rightarrow> TimePoint \<Rightarrow> ipv4 \<Rightarrow> 'a GridWatcher \<Rightarrow> 'a GridWatcher" where
  "addWhitelist env t a s =
     s\<lparr>mitigation := MitigationEngine_addWhitelist a (mitigation s),
       whitelisted_ips_cache := BloomFilter_add (bloom_hash env) a (whitelisted_ips_cache s),
       logger := Logger_info t ''ManualControl''
                   (''IP added to whitelist: '' @ ipv4_toString env a) (logger s)\<rparr>"

definition removeWhitelist :: "'a components \<Rightarrow> TimePoint \<Rightarrow> ipv4 \<Rightarrow> 'a GridWatcher \<Rightarrow> 'a GridWatcher" where
  "removeWhitelist env t a s =
     s\<lparr>mitigation := MitigationEngine_removeWhitelist a (mitigation s),
       logger := Logger_info t ''ManualControl''
                   (''IP removed from whitelist: '' @ ipv4_toString env a) (logger s)\<rparr>"

text \<open>One round of \<^verbatim>\<open>cleanupLoop\<close> past its sleep, with the engine running.\<close>

definition cleanup_round :: "TimePoint \<Rightarrow> 'a GridWatcher \<Rightarrow> 'a GridWatcher" where
  "cleanup_round t s =
     s\<lparr>mitigation := MitigationEngine_cleanup t (mitigation s),
       logger := Logger_info t ''Cleanup'' ''Periodic cleanup completed'' (logger s)\<rparr>"

subsection \<open>The blocked cache against the table\<close>

text \<open>
  The blocked cache covers the table when every address with a block record passes the
  cache's test. The analyzer names the source when each alert it returns carries the source
  address of the metadata it was given, as the alerts of the documented analyzer do.
\<close>

definition cache_covers :: "'a components \<Rightarrow> 'a GridWatcher \<Rightarrow> bool" where
  "cache_covers env s \<longleftrightarrow>
     list_all (\<lambda>e. BloomFilter_contains (bloom_hash env) (blocked_ips_cache s) (fst e))
       (blocked_ips (mitigation s))"

definition alerts_name_source :: "'a components \<Rightarrow> bool" where
  "alerts_name_source env \<longleftrightarrow>
     (\<forall>an meta. list_all (\<lambda>thr. alert_source_ip thr = source_ip meta)
                  (fst (analyze env an meta)))"

subsection \<open>Histories of calls\<close>

datatype call =
  ProcessPacket readings "byte list" ipv4 ipv4 port port
  | BlockIP TimePoint ipv4 AttackType
  | UnblockIP TimePoint ipv4
  | AddWhitelist TimePoint ipv4
  | RemoveWhitelist TimePoint ipv4
  | CleanupRound TimePoint

fun run_call :: "'a components \<Rightarrow> call \<Rightarrow> 'a GridWatcher \<Rightarrow> 'a GridWatcher" where
  "run_call env (ProcessPacket rd packet_data src dst sport dport) s =
     snd (processPacket env rd packet_data src dst sport dport s)"
| "run_call env (BlockIP t a why) s = blockIP env t a why s"
| "run_call env (UnblockIP t a) s = unblockIP env t a s"
| "run_call env (AddWhitelist t a) s = addWhitelist env t a s"
| "run_call env (RemoveWhitelist t a) s = removeWhitelist env t a s"
| "run_call env (CleanupRound t) s = cleanup_round t s"

definition run_calls :: "'a components \<Rightarrow> call list \<Rightarrow> 'a GridWatcher \<Rightarrow> 'a GridWatcher" where
  "run_calls env cs s = fold (run_call env) cs s"

section \<open>Ingestion pipeline (packet_processor.hpp)\<close>

record PacketJob =
  received_at :: TimePoint
  data :: "byte list"
  job_source_ip :: ipv4
  job_dest_ip :: ipv4
  job_source_port :: port
  job_dest_port :: port
  processed :: bool
  allowed :: bool

text \<open>
  A default-constructed job: the two result flags have initialisers, the other members
  are taken as empty or zero.
\<close>

definition PacketJob_default :: PacketJob where
  "PacketJob_default =
     \<lparr>received_at = 0, data = [], job_source_ip = 0, job_dest_ip = 0, job_source_port = 0,
      job_dest_port = 0, processed = False, allowed = True\<rparr>"

subsection \<open>The bounded queue\<close>

text \<open>
  \<^verbatim>\<open>PacketQueue<Capacity>\<close>. The template parameter is the argument \<open>cap\<close> of every
  operation. Positions and sequence numbers are \<^verbatim>\<open>uint64_t\<close> counters of operations that
  start at zero; they are natural numbers here, and the difference \<^verbatim>\<open>diff\<close> is taken
  over the integers as the code takes it over \<^verbatim>\<open>intptr_t\<close>.
\<close>

record Slot =
  sequence :: nat
  job :: PacketJob

record PacketQueue =
  slots :: "Slot list"
  enqueue_pos :: nat
  dequeue_pos :: nat

definition PacketQueue_init :: "nat \<Rightarrow> PacketQueue" where
  "PacketQueue_init cap =
     \<lparr>slots = map (\<lambda>i. \<lparr>sequence = i, job = PacketJob_default\<rparr>) [0..<cap],
      enqueue_pos = 0, dequeue_pos = 0\<rparr>"

text \<open>
  The loop of \<^verbatim>\<open>enqueue\<close> from a loaded position \<open>pos\<close>. The compare-exchange succeeds
  when \<^verbatim>\<open>enqueue_pos_\<close> still holds \<open>pos\<close>; when it fails, and when the slot is ahead of
  \<open>pos\<close>, the position is loaded again and the loop repeats. A run that never leaves the
  loop has the value \<open>None\<close>.
\<close>

partial_function (option) enqueue_from ::
  "nat \<Rightarrow> PacketJob \<Rightarrow> nat \<Rightarrow> PacketQueue \<Rightarrow> (bool \<times> PacketQueue) option" where
  "enqueue_from cap j pos q =
     (if int (sequence (slots q ! (pos mod cap))) - int pos = 0 then
        (if enqueue_pos q = pos
         then Some (True, q\<lparr>enqueue_pos := pos + 1,
                            slots := (slots q)[pos mod cap := \<lparr>sequence = pos + 1, job = j\<rparr>]\<rparr>)
         else enqueue_from cap j (enqueue_pos q) q)
      else if int (sequence (slots q ! (pos mod cap))) - int pos < 0 then Some (False, q)
      else enqueue_from cap j (enqueue_pos q) q)"

definition enqueue :: "nat \<Rightarrow> PacketJob \<Rightarrow> PacketQueue \<Rightarrow> (bool \<times> PacketQueue) option" where
  "enqueue cap j q = enqueue_from cap j (enqueue_pos q) q"

text \<open>
  The loop of \<^verbatim>\<open>dequeue\<close>. The result carries the job moved out of the slot, or no job
  when the queue is empty (the code returns false and leaves the caller's job alone).
\<close>

partial_function (option) dequeue_from ::
  "nat \<Rightarrow> nat \<Rightarrow> PacketQueue \<Rightarrow> (PacketJob option \<times> PacketQueue) option" where
  "dequeue_from cap pos q =
     (if int (sequence (slots q ! (pos mod cap))) - int (pos + 1) = 0 then
        (if dequeue_pos q = pos
         then Some (Some (job (slots q ! (pos mod cap))),
                    q\<lparr>dequeue_pos := pos + 1,
                      slots := (slots q)[pos mod cap :=
                                 (slots q ! (pos mod cap))\<lparr>sequence := pos + cap\<rparr>]\<rparr>)
         else dequeue_from cap (dequeue_pos q) q)
      else if int (sequence (slots q ! (pos mod cap))) - int (pos + 1) < 0 then Some (None, q)
      else dequeue_from cap (dequeue_pos q) q)"

definition dequeue :: "nat \<Rightarrow> PacketQueue \<Rightarrow> (PacketJob option \<times> PacketQueue) option" where
  "dequeue cap q = dequeue_from cap (dequeue_pos q) q"

text \<open>The jobs a queue holds, oldest first, and the shape of a queue left by its operations.\<close>

definition queue_jobs :: "nat \<Rightarrow> PacketQueue \<Rightarrow> PacketJob list" where
  "queue_jobs cap q =
     map (\<lambda>p. job (slots q ! (p mod cap))) [dequeue_pos q..<enqueue_pos q]"

definition queue_inv :: "nat \<Rightarrow> PacketQueue \<Rightarrow> bool" where
  "queue_inv cap q \<longleftrightarrow>
     length (slots q) = cap \<and> dequeue_pos q \<le> enqueue_pos q
     \<and> enqueue_pos q \<le> dequeue_pos q + cap
     \<and> list_all (\<lambda>p. sequence (slots q ! (p mod cap)) = p + 1)
          [dequeue_pos q..<enqueue_pos q]
     \<and> list_all (\<lambda>p. sequence (slots q ! (p mod cap)) = p)
          [enqueue_pos q..<dequeue_pos q + cap]"

text \<open>The queue after an enqueue that found room, and after a dequeue that found a job.\<close>

definition enqueued :: "nat \<Rightarrow> PacketJob \<Rightarrow> PacketQueue \<Rightarrow> PacketQueue" where
  "enqueued cap j q =
     q\<lparr>enqueue_pos := enqueue_pos q + 1,
       slots := (slots q)[enqueue_pos q mod cap := \<lparr>sequence = enqueue_pos q + 1, job = j\<rparr>]\<rparr>"

definition dequeued :: "nat \<Rightarrow> PacketQueue \<Rightarrow> PacketQueue" where
  "dequeued cap q =
     q\<lparr>dequeue_pos := dequeue_pos q + 1,
       slots := (slots q)[dequeue_pos q mod cap :=
                  (slots q ! (dequeue_pos q mod cap))\<lparr>sequence := dequeue_pos q + cap\<rparr>]\<rparr>"

text \<open>The number of slots an enqueue can still claim.\<close>

definition free_slots :: "nat \<Rightarrow> PacketQueue \<Rightarrow> nat" where
  "free_slots cap q = dequeue_pos q + cap - enqueue_pos q"

subsection \<open>The processor and its workers\<close>

datatype worker_pc = LoopTest | LoopBody | Exited

text \<open>
  A worker thread of \<^verbatim>\<open>workerThread\<close>: where it stands in its loop (about to test
  \<^verbatim>\<open>running_\<close>, inside the loop body, or returned) and its local \<^verbatim>\<open>job\<close>.
\<close>

record worker =
  pc :: worker_pc
  local_job :: PacketJob

record 'a PacketProcessor =
  watcher :: "'a GridWatcher"
  queue :: PacketQueue
  workers :: "worker list"
  processor_running :: bool
  num_threads :: nat
  packets_queued :: u64
  processor_packets_processed :: u64
  packets_dropped_queue_full :: u64

text \<open>The number of workers that are inside the loop body.\<close>

definition in_body :: "worker list \<Rightarrow> nat" where
  "in_body ws = length (filter (\<lambda>w. pc w = LoopBody) ws)"

text \<open>The processor declares its queue as \<^verbatim>\<open>PacketQueue<32768>\<close>.\<close>

definition PROCESSOR_QUEUE_CAPACITY :: nat where
  "PROCESSOR_QUEUE_CAPACITY = 32768"

definition PacketProcessor_init :: "nat \<Rightarrow> 'a GridWatcher \<Rightarrow> nat \<Rightarrow> 'a PacketProcessor" where
  "PacketProcessor_init cap w n =
     \<lparr>watcher = w, queue = PacketQueue_init cap, workers = [], processor_running = False,
      num_threads = n, packets_queued = 0, processor_packets_processed = 0,
      packets_dropped_queue_full = 0\<rparr>"

definition PacketProcessor_start :: "'a PacketProcessor \<Rightarrow> 'a PacketProcessor" where
  "PacketProcessor_start p =
     (if processor_running p then p
      else p\<lparr>processor_running := True,
             workers := workers p @
               replicate (num_threads p) \<lparr>pc = LoopTest, local_job = PacketJob_default\<rparr>\<rparr>)"

text \<open>The job that \<^verbatim>\<open>submitPacket\<close> fills in before it enqueues it.\<close>

definition new_job :: "TimePoint \<Rightarrow> byte list \<Rightarrow> ipv4 \<Rightarrow> ipv4 \<Rightarrow> port \<Rightarrow> port \<Rightarrow> PacketJob" where
  "new_job t bs src dst sport dport =
     PacketJob_default\<lparr>data := bs, job_source_ip := src, job_dest_ip := dst,
       job_source_port := sport, job_dest_port := dport, received_at := t\<rparr>"

definition submitPacket ::
  "nat \<Rightarrow> TimePoint \<Rightarrow> byte list \<Rightarrow> ipv4 \<Rightarrow> ipv4 \<Rightarrow> port \<Rightarrow> port \<Rightarrow> 'a PacketProcessor
     \<Rightarrow> (bool \<times> 'a PacketProcessor) option" where
  "submitPacket cap t bs src dst sport dport p =
     (let j = new_job t bs src dst sport dport
      in case enqueue cap j (queue p) of
           None \<Rightarrow> None
         | Some (True, q) \<Rightarrow> Some (True, p\<lparr>queue := q, packets_queued := packets_queued p + 1\<rparr>)
         | Some (False, q) \<Rightarrow>
             Some (False, p\<lparr>packets_dropped_queue_full := packets_dropped_queue_full p + 1\<rparr>))"

text \<open>A run of submissions by one producer; the results are in submission order.\<close>

record submission =
  sub_time :: TimePoint
  sub_data :: "byte list"
  sub_src :: ipv4
  sub_dst :: ipv4
  sub_sport :: port
  sub_dport :: port

fun submit_all ::
  "nat \<Rightarrow> submission list \<Rightarrow> 'a PacketProcessor \<Rightarrow> (bool list \<times> 'a PacketProcessor) option" where
  "submit_all cap [] p = Some ([], p)"
| "submit_all cap (x # xs) p =
     (case submitPacket cap (sub_time x) (sub_data x) (sub_src x) (sub_dst x) (sub_sport x)
             (sub_dport x) p of
        None \<Rightarrow> None
      | Some (r, p1) \<Rightarrow>
          (case submit_all cap xs p1 of
             None \<Rightarrow> None
           | Some (rs, p2) \<Rightarrow> Some (r # rs, p2)))"

text \<open>
  One step of a worker: the test of the loop condition, or one run of the loop body
  (dequeue, then process the job or yield).
\<close>

definition worker_step ::
  "'a components \<Rightarrow> readings \<Rightarrow> nat \<Rightarrow> worker \<Rightarrow> 'a PacketProcessor
     \<Rightarrow> (worker \<times> 'a PacketProcessor) option" where
  "worker_step env rd cap w p =
     (case pc w of
        Exited \<Rightarrow> Some (w, p)
      | LoopTest \<Rightarrow>
          Some (w\<lparr>pc := (if processor_running p then LoopBody else Exited)\<rparr>, p)
      | LoopBody \<Rightarrow>
          (case dequeue cap (queue p) of
             None \<Rightarrow> None
           | Some (None, q) \<Rightarrow> Some (w\<lparr>pc := LoopTest\<rparr>, p)
           | Some (Some j, q) \<Rightarrow>
               (let res = processPacket env rd (data j) (job_source_ip j) (job_dest_ip j)
                            (job_source_port j) (job_dest_port j) (watcher p)
                in Some (w\<lparr>pc := LoopTest,
                           local_job := j\<lparr>allowed := fst res, processed := True\<rparr>\<rparr>,
                         p\<lparr>queue := q, watcher := snd res,
                           processor_packets_processed :=
                             processor_packets_processed p + 1\<rparr>))))"

text \<open>A worker run until it returns; a worker that never returns has the value \<open>None\<close>.\<close>

partial_function (option) run_to_exit ::
  "'a components \<Rightarrow> readings \<Rightarrow> nat \<Rightarrow> worker \<Rightarrow> 'a PacketProcessor
     \<Rightarrow> (worker \<times> 'a PacketProcessor) option" where
  "run_to_exit env rd cap w p =
     (if pc w = Exited then Some (w, p)
      else Option.bind (worker_step env rd cap w p)
             (\<lambda>wp. run_to_exit env rd cap (fst wp) (snd wp)))"

text \<open>The joins of \<^verbatim>\<open>stop\<close>: each worker in turn runs until it returns.\<close>

fun join_all ::
  "'a components \<Rightarrow> readings \<Rightarrow> nat \<Rightarrow> worker list \<Rightarrow> 'a PacketProcessor
     \<Rightarrow> 'a PacketProcessor option" where
  "join_all env rd cap [] p = Some p"
| "join_all env rd cap (w # ws) p =
     (case run_to_exit env rd cap w p of
        None \<Rightarrow> None
      | Some (w1, p1) \<Rightarrow> join_all env rd cap ws p1)"

definition PacketProcessor_stop ::
  "'a components \<Rightarrow> readings \<Rightarrow> nat \<Rightarrow> 'a PacketProcessor \<Rightarrow> 'a PacketProcessor option" where
  "PacketProcessor_stop env rd cap p =
     (if \<not> processor_running p then Some p
      else (case join_all env rd cap (workers p) (p\<lparr>processor_running := False\<rparr>) of
              None \<Rightarrow> None
            | Some p1 \<Rightarrow> Some (p1\<lparr>workers := []\<rparr>)))"

section \<open>Sample inputs\<close>

text \<open>
  One choice of the parts that are parameters, used where a statement is evaluated on a
  concrete input: hash functions, a Modbus test on the minimum frame length, a parser that
  reads the function code, and an analyzer that counts packets and raises the
  malformed-packet alert.
\<close>

definition sample_components :: "nat components" where
  "sample_components =
     \<lparr>bloom_hash = (\<lambda>k x. (unat x + 1) * (2 * k + 1)),
      ipv4_toString = (\<lambda>x. ''addr''),
      AttackType_to_string = (\<lambda>x. ''attack''),
      MitigationAction_to_string = (\<lambda>x. ''action''),
      isModbusTCP = (\<lambda>bs. 12 \<le> length bs),
      ModbusParser_parse =
        (\<lambda>bs. Some (PacketMetadata_default\<lparr>packet_size := length bs,
                       function_code := bs ! 7\<rparr>)),
      BehavioralAnalyzer_init = (\<lambda>cfg. 0),
      analyze =
        (\<lambda>n meta.
           (if is_malformed meta
            then [\<lparr>alert_timestamp = timestamp meta, alert_source_ip = source_ip meta,
                   alert_dest_ip = dest_ip meta, attack_type = MALFORMED_PACKET,
                   severity = HIGH, description = ''Malformed packet'',
                   confidence_score = 1, auto_mitigated = False\<rparr>]
            else [], Suc n)),
      shouldDropPacket = (\<lambda>m meta. False)\<rparr>"

definition sample_readings :: readings where
  "sample_readings = \<lparr>now = 100, threat_elapsed_ns = 250, elapsed_ns = 340\<rparr>"

text \<open>The engine constructed from a configuration whose log file opens, at time 0.\<close>

definition constructed :: "'a components \<Rightarrow> DetectionConfig \<Rightarrow> 'a GridWatcher" where
  "constructed env cfg =
     (case GridWatcher_init env cfg ''grid_watcher.log'' True 0 of
        Inr s \<Rightarrow> s
      | Inl e \<Rightarrow> undefined)"

text \<open>
  A processor with a queue of two slots and one worker, started, and three submissions.
\<close>

definition sample_processor :: "nat PacketProcessor" where
  "sample_processor =
     PacketProcessor_start
       (PacketProcessor_init 2 (constructed sample_components createDefault) 1)"

definition sample_submission :: "nat \<Rightarrow> submission" where
  "sample_submission k =
     \<lparr>sub_time = k, sub_data = replicate 12 (of_nat k), sub_src = 10, sub_dst = 20,
      sub_sport = 5000, sub_dport = 502\<rparr>"

definition job_of :: "submission \<Rightarrow> PacketJob" where
  "job_of x = new_job (sub_time x) (sub_data x) (sub_src x) (sub_dst x) (sub_sport x) (sub_dport x)"

text \<open>The sample processor after two accepted submissions: its queue is full.\<close>

definition sample_full_processor :: "nat PacketProcessor" where
  "sample_full_processor =
     (case submit_all 2 (map sample_submission [1, 2]) sample_processor of
        Some (rs, p) \<Rightarrow> p
      | None \<Rightarrow> sample_processor)"

text \<open>A logger whose file opened, as its constructor leaves it: not started.\<close>

definition sample_logger :: Logger where
  "sample_logger =
     (case Logger_init ''grid_watcher.log'' Level_INFO True True of
        Inr lg \<Rightarrow> lg
      | Inl e \<Rightarrow> undefined)"

text \<open>
  The address 10.0.0.5, and the engine after that address was added to the whitelist and
  removed from it again.
\<close>

definition sample_address :: ipv4 where
  "sample_address = 167772165"

definition sample_unlisted :: "nat GridWatcher" where
  "sample_unlisted =
     removeWhitelist sample_components 2 sample_address
       (addWhitelist sample_components 1 sample_address
          (constructed sample_components createDefault))"



text \<open>
  A second address, which the sample hash functions send to the same three bits as
  10.0.0.5, and the engine with only 10.0.0.5 on the whitelist.
\<close>

definition sample_collider :: ipv4 where
  "sample_collider = 167780357"

definition sample_listed :: "nat GridWatcher" where
  "sample_listed =
     addWhitelist sample_components 1 sample_address
       (constructed sample_components createDefault)"


section \<open>Properties of the latency tracker\<close>



lemma record_is_its_steps:
  "run_schedule [0, 0, 0, 0, 0] (calls_of [x], t)
     = ([\<lparr>recorded_ns = x, record_at = Returned\<rparr>], LatencyTracker_record x t)"
  by (simp add: run_schedule_def thread_step_def calls_of_def record_step.simps
      LatencyTracker_record_def Let_def)














section \<open>Properties of the configuration check and of construction\<close>

text \<open>
  Construction from a configuration with \<^verbatim>\<open>dos_packet_threshold = 0\<close> completes.
\<close>

theorem constructor_accepts_invalid_config:
  "\<not> isValid (createDefault\<lparr>dos_packet_threshold := 0\<rparr>)
   \<and> \<not> isl (GridWatcher_init sample_components (createDefault\<lparr>dos_packet_threshold := 0\<rparr>)
              ''grid_watcher.log'' True 0)"
  by (simp add: isValid_def createDefault_def GridWatcher_init_def Logger_init_def)

text \<open>
  C4, as the code has it. A configuration with a zero \<^verbatim>\<open>dos_packet_threshold\<close>,
  \<^verbatim>\<open>dos_byte_threshold\<close>, \<^verbatim>\<open>port_scan_threshold\<close> or \<^verbatim>\<open>max_concurrent_blocks\<close> is told
  apart by \<^verbatim>\<open>isValid\<close>, which is false exactly on those. The constructor does not call
  \<^verbatim>\<open>isValid\<close>: construction fails exactly when the log file does not open, with the
  logger's \<^verbatim>\<open>runtime_error\<close>, whatever the configuration.
\<close>

theorem invalid_config_detected_by_isValid:
  "(isValid cfg \<longleftrightarrow>
      dos_packet_threshold cfg \<noteq> 0 \<and> dos_byte_threshold cfg \<noteq> 0
      \<and> port_scan_threshold cfg \<noteq> 0 \<and> max_concurrent_blocks cfg \<noteq> 0)
   \<and> (isl (GridWatcher_init env cfg fname opens t) \<longleftrightarrow> \<not> opens)
   \<and> (\<not> opens \<longrightarrow>
        GridWatcher_init env cfg fname opens t
          = Inl (runtime_error (''Failed to open log file: '' @ fname)))"
  by (simp add: isValid_def GridWatcher_init_def Logger_init_def word_neq_0_conv)

theorem invalid_config_detected_by_isValid_witness:
  "\<not> isValid (createDefault\<lparr>max_concurrent_blocks := 0\<rparr>)
   \<and> isValid createDefault
   \<and> \<not> isl (GridWatcher_init sample_components (createDefault\<lparr>max_concurrent_blocks := 0\<rparr>)
              ''grid_watcher.log'' True 0)
   \<and> GridWatcher_init sample_components createDefault ''grid_watcher.log'' False 0
       = Inl (runtime_error ''Failed to open log file: grid_watcher.log'')"
  using invalid_config_detected_by_isValid
          [of "createDefault\<lparr>max_concurrent_blocks := 0\<rparr>" sample_components
              "''grid_watcher.log''" True 0]
        invalid_config_detected_by_isValid
          [of createDefault sample_components "''grid_watcher.log''" False 0]
  by (simp add: createDefault_def)

section \<open>Properties of the metadata step\<close>



section \<open>Properties of the bounded queue\<close>

lemma slot_index_distinct:
  assumes "p < p'" "p' < p + cap"
  shows "p mod cap \<noteq> p' mod (cap :: nat)"
proof
  assume "p mod cap = p' mod cap"
  then have "cap dvd p' - p"
    using assms(1) by (metis mod_eq_dvd_iff_nat less_imp_le)
  moreover have "0 < p' - p" "p' - p < cap" using assms by auto
  ultimately show False by (auto dest: dvd_imp_le)
qed

lemma queue_inv_unfold:
  "queue_inv cap q \<longleftrightarrow>
     length (slots q) = cap \<and> dequeue_pos q \<le> enqueue_pos q
     \<and> enqueue_pos q \<le> dequeue_pos q + cap
     \<and> (\<forall>p. dequeue_pos q \<le> p \<and> p < enqueue_pos q \<longrightarrow>
            sequence (slots q ! (p mod cap)) = p + 1)
     \<and> (\<forall>p. enqueue_pos q \<le> p \<and> p < dequeue_pos q + cap \<longrightarrow>
            sequence (slots q ! (p mod cap)) = p)"
  by (auto simp: queue_inv_def list_all_iff)

lemma queue_inv_init: "queue_inv cap (PacketQueue_init cap)"
  by (auto simp: queue_inv_unfold PacketQueue_init_def)

lemma queue_jobs_init: "queue_jobs cap (PacketQueue_init cap) = []"
  by (simp add: queue_jobs_def PacketQueue_init_def)

lemma length_queue_jobs: "length (queue_jobs cap q) = enqueue_pos q - dequeue_pos q"
  by (simp add: queue_jobs_def)

lemma enqueue_room:
  assumes inv: "queue_inv cap q" and room: "enqueue_pos q < dequeue_pos q + cap"
  shows "enqueue cap j q = Some (True, enqueued cap j q)"
proof -
  have "sequence (slots q ! (enqueue_pos q mod cap)) = enqueue_pos q"
    using inv room by (simp add: queue_inv_unfold)
  then show ?thesis
    unfolding enqueue_def by (subst enqueue_from.simps) (simp add: enqueued_def)
qed

lemma enqueue_full:
  assumes inv: "queue_inv cap q" and full: "enqueue_pos q = dequeue_pos q + cap"
    and cap: "2 \<le> cap"
  shows "enqueue cap j q = Some (False, q)"
proof -
  have "sequence (slots q ! (dequeue_pos q mod cap)) = dequeue_pos q + 1"
    using inv full cap by (simp add: queue_inv_unfold)
  moreover have "enqueue_pos q mod cap = dequeue_pos q mod cap"
    using full by simp
  ultimately show ?thesis
    unfolding enqueue_def using full cap by (subst enqueue_from.simps) simp
qed

lemma enqueued_inv:
  assumes inv: "queue_inv cap q" and room: "enqueue_pos q < dequeue_pos q + cap"
  shows "queue_inv cap (enqueued cap j q)"
proof -
  have len: "length (slots q) = cap" and cap: "0 < cap"
    using inv room by (auto simp: queue_inv_unfold)
  have idx: "enqueue_pos q mod cap < length (slots q)" using len cap by simp
  show ?thesis
    unfolding queue_inv_unfold
  proof (intro conjI allI impI)
    fix p assume p: "dequeue_pos (enqueued cap j q) \<le> p \<and> p < enqueue_pos (enqueued cap j q)"
    show "sequence (slots (enqueued cap j q) ! (p mod cap)) = p + 1"
    proof (cases "p = enqueue_pos q")
      case True then show ?thesis using idx by (simp add: enqueued_def)
    next
      case False
      then have lt: "p < enqueue_pos q" using p by (simp add: enqueued_def)
      then have "p mod cap \<noteq> enqueue_pos q mod cap"
        using p room by (intro slot_index_distinct) (auto simp: enqueued_def)
      then show ?thesis using inv p lt by (simp add: enqueued_def queue_inv_unfold)
    qed
  next
    fix p assume p: "enqueue_pos (enqueued cap j q) \<le> p \<and> p < dequeue_pos (enqueued cap j q) + cap"
    then have "enqueue_pos q mod cap \<noteq> p mod cap"
      using inv by (intro slot_index_distinct) (auto simp: enqueued_def queue_inv_unfold)
    then show "sequence (slots (enqueued cap j q) ! (p mod cap)) = p"
      using inv p by (simp add: enqueued_def queue_inv_unfold)
  qed (use inv room in \<open>auto simp: enqueued_def queue_inv_unfold\<close>)
qed

lemma enqueued_jobs:
  assumes inv: "queue_inv cap q" and room: "enqueue_pos q < dequeue_pos q + cap"
  shows "queue_jobs cap (enqueued cap j q) = queue_jobs cap q @ [j]"
proof -
  have len: "length (slots q) = cap" and cap: "0 < cap" and le: "dequeue_pos q \<le> enqueue_pos q"
    using inv room by (auto simp: queue_inv_unfold)
  have "\<And>p. p \<in> set [dequeue_pos q..<enqueue_pos q] \<Longrightarrow>
          slots (enqueued cap j q) ! (p mod cap) = slots q ! (p mod cap)"
  proof -
    fix p assume "p \<in> set [dequeue_pos q..<enqueue_pos q]"
    then have "p mod cap \<noteq> enqueue_pos q mod cap"
      using room by (intro slot_index_distinct) auto
    then show "slots (enqueued cap j q) ! (p mod cap) = slots q ! (p mod cap)"
      by (simp add: enqueued_def)
  qed
  then have "map (\<lambda>p. job (slots (enqueued cap j q) ! (p mod cap))) [dequeue_pos q..<enqueue_pos q]
           = map (\<lambda>p. job (slots q ! (p mod cap))) [dequeue_pos q..<enqueue_pos q]"
    by (intro map_cong) auto
  moreover have "job (slots (enqueued cap j q) ! (enqueue_pos q mod cap)) = j"
    using len cap by (simp add: enqueued_def)
  ultimately show ?thesis
    using le by (simp add: queue_jobs_def enqueued_def)
qed

lemma dequeue_nonempty:
  assumes inv: "queue_inv cap q" and ne: "dequeue_pos q < enqueue_pos q"
  shows "dequeue cap q = Some (Some (hd (queue_jobs cap q)), dequeued cap q)"
proof -
  have "sequence (slots q ! (dequeue_pos q mod cap)) = dequeue_pos q + 1"
    using inv ne by (simp add: queue_inv_unfold)
  moreover have "hd (queue_jobs cap q) = job (slots q ! (dequeue_pos q mod cap))"
    using ne by (simp add: queue_jobs_def upt_conv_Cons)
  ultimately show ?thesis
    unfolding dequeue_def by (subst dequeue_from.simps) (simp add: dequeued_def)
qed

lemma dequeue_empty:
  assumes inv: "queue_inv cap q" and emp: "dequeue_pos q = enqueue_pos q" and cap: "0 < cap"
  shows "dequeue cap q = Some (None, q)"
proof -
  have "sequence (slots q ! (dequeue_pos q mod cap)) = dequeue_pos q"
    using inv emp cap by (simp add: queue_inv_unfold)
  then show ?thesis
    unfolding dequeue_def by (subst dequeue_from.simps) simp
qed

lemma dequeued_inv:
  assumes inv: "queue_inv cap q" and ne: "dequeue_pos q < enqueue_pos q"
  shows "queue_inv cap (dequeued cap q)"
proof -
  have len: "length (slots q) = cap" and cap: "0 < cap"
    and le: "enqueue_pos q \<le> dequeue_pos q + cap"
    using inv ne by (auto simp: queue_inv_unfold)
  have idx: "dequeue_pos q mod cap < length (slots q)" using len cap by simp
  show ?thesis
    unfolding queue_inv_unfold
  proof (intro conjI allI impI)
    fix p assume p: "dequeue_pos (dequeued cap q) \<le> p \<and> p < enqueue_pos (dequeued cap q)"
    then have "dequeue_pos q mod cap \<noteq> p mod cap"
      using le by (intro slot_index_distinct) (auto simp: dequeued_def)
    then show "sequence (slots (dequeued cap q) ! (p mod cap)) = p + 1"
      using inv p by (simp add: dequeued_def queue_inv_unfold)
  next
    fix p assume p: "enqueue_pos (dequeued cap q) \<le> p \<and> p < dequeue_pos (dequeued cap q) + cap"
    show "sequence (slots (dequeued cap q) ! (p mod cap)) = p"
    proof (cases "p = dequeue_pos q + cap")
      case True then show ?thesis using idx by (simp add: dequeued_def)
    next
      case False
      then have lt: "p < dequeue_pos q + cap" using p by (simp add: dequeued_def)
      then have "dequeue_pos q mod cap \<noteq> p mod cap"
        using p ne by (intro slot_index_distinct) (auto simp: dequeued_def)
      then show ?thesis using inv p lt by (simp add: dequeued_def queue_inv_unfold)
    qed
  qed (use inv ne in \<open>auto simp: dequeued_def queue_inv_unfold\<close>)
qed

lemma dequeued_jobs:
  assumes inv: "queue_inv cap q" and ne: "dequeue_pos q < enqueue_pos q"
  shows "queue_jobs cap (dequeued cap q) = tl (queue_jobs cap q)"
proof -
  have le: "enqueue_pos q \<le> dequeue_pos q + cap"
    using inv by (auto simp: queue_inv_unfold)
  have "\<And>p. p \<in> set [Suc (dequeue_pos q)..<enqueue_pos q] \<Longrightarrow>
          slots (dequeued cap q) ! (p mod cap) = slots q ! (p mod cap)"
  proof -
    fix p assume "p \<in> set [Suc (dequeue_pos q)..<enqueue_pos q]"
    then have "dequeue_pos q mod cap \<noteq> p mod cap"
      using le by (intro slot_index_distinct) auto
    then show "slots (dequeued cap q) ! (p mod cap) = slots q ! (p mod cap)"
      by (simp add: dequeued_def)
  qed
  then have "map (\<lambda>p. job (slots (dequeued cap q) ! (p mod cap))) [Suc (dequeue_pos q)..<enqueue_pos q]
           = map (\<lambda>p. job (slots q ! (p mod cap))) [Suc (dequeue_pos q)..<enqueue_pos q]"
    by (intro map_cong) auto
  then show ?thesis
    using ne by (simp add: queue_jobs_def dequeued_def upt_conv_Cons)
qed
section \<open>Properties of packet submission\<close>

lemma submitPacket_room:
  assumes "queue_inv cap (queue p)" "enqueue_pos (queue p) < dequeue_pos (queue p) + cap"
  shows "submitPacket cap t bs src dst sport dport p
           = Some (True, p\<lparr>queue := enqueued cap (new_job t bs src dst sport dport) (queue p),
                           packets_queued := packets_queued p + 1\<rparr>)"
  using enqueue_room [OF assms] by (simp add: submitPacket_def)

lemma submitPacket_full:
  assumes "queue_inv cap (queue p)" "enqueue_pos (queue p) = dequeue_pos (queue p) + cap"
    "2 \<le> cap"
  shows "submitPacket cap t bs src dst sport dport p
           = Some (False, p\<lparr>packets_dropped_queue_full := packets_dropped_queue_full p + 1\<rparr>)"
  using enqueue_full [OF assms] by (simp add: submitPacket_def)

lemma submit_all_results:
  assumes "2 \<le> cap"
  shows "queue_inv cap (queue p) \<Longrightarrow>
         \<exists>p'. submit_all cap xs p
                 = Some (replicate (min (length xs) (free_slots cap (queue p))) True
                         @ replicate (length xs - free_slots cap (queue p)) False, p')
             \<and> queue_inv cap (queue p')
             \<and> packets_dropped_queue_full p'
                 = packets_dropped_queue_full p
                   + of_nat (length xs - free_slots cap (queue p))
             \<and> watcher p' = watcher p
             \<and> processor_packets_processed p' = processor_packets_processed p"
proof (induction xs arbitrary: p)
  case Nil
  then show ?case by simp
next
  case (Cons x xs)
  let ?q = "queue p"
  have bounds: "dequeue_pos ?q \<le> enqueue_pos ?q" "enqueue_pos ?q \<le> dequeue_pos ?q + cap"
    using Cons.prems by (auto simp: queue_inv_unfold)
  show ?case
  proof (cases "enqueue_pos ?q < dequeue_pos ?q + cap")
    case True
    let ?j = "new_job (sub_time x) (sub_data x) (sub_src x) (sub_dst x) (sub_sport x) (sub_dport x)"
    let ?p1 = "p\<lparr>queue := enqueued cap ?j ?q, packets_queued := packets_queued p + 1\<rparr>"
    have step: "submitPacket cap (sub_time x) (sub_data x) (sub_src x) (sub_dst x) (sub_sport x)
             (sub_dport x) p = Some (True, ?p1)"
      by (rule submitPacket_room [OF Cons.prems True])
    have inv1: "queue_inv cap (queue ?p1)"
      using enqueued_inv [OF Cons.prems True] by simp
    have free1: "free_slots cap (queue ?p1) = free_slots cap ?q - 1"
      by (simp add: free_slots_def enqueued_def)
    have pos: "0 < free_slots cap ?q" using True by (simp add: free_slots_def)
    from Cons.IH [OF inv1] obtain p' where
      rest: "submit_all cap xs ?p1
             = Some (replicate (min (length xs) (free_slots cap ?q - 1)) True
                     @ replicate (length xs - (free_slots cap ?q - 1)) False, p')"
      and inv': "queue_inv cap (queue p')"
      and cnt: "packets_dropped_queue_full p'
                 = packets_dropped_queue_full ?p1 + of_nat (length xs - (free_slots cap ?q - 1))"
      and same: "watcher p' = watcher ?p1"
                "processor_packets_processed p' = processor_packets_processed ?p1"
      unfolding free1 by blast
    have shape: "True # replicate (min (length xs) (free_slots cap ?q - 1)) True
                  = replicate (min (length (x # xs)) (free_slots cap ?q)) True"
      using pos by (cases "free_slots cap ?q") (simp_all add: min_def)
    have diff: "length xs - (free_slots cap ?q - 1) = length (x # xs) - free_slots cap ?q"
      using pos by simp
    show ?thesis
      using step rest inv' cnt same shape diff
      by (intro exI [of _ p']) (simp del: replicate_Suc length_Cons add: shape [symmetric])
  next
    case False
    then have full: "enqueue_pos ?q = dequeue_pos ?q + cap" using bounds by simp
    let ?p1 = "p\<lparr>packets_dropped_queue_full := packets_dropped_queue_full p + 1\<rparr>"
    have step: "submitPacket cap (sub_time x) (sub_data x) (sub_src x) (sub_dst x) (sub_sport x)
             (sub_dport x) p = Some (False, ?p1)"
      by (rule submitPacket_full [OF Cons.prems full assms])
    have free0: "free_slots cap ?q = 0" using full by (simp add: free_slots_def)
    have inv1: "queue_inv cap (queue ?p1)" using Cons.prems by simp
    from Cons.IH [OF inv1] obtain p' where
      rest: "submit_all cap xs ?p1 = Some (replicate (length xs) False, p')"
      and inv': "queue_inv cap (queue p')"
      and cnt: "packets_dropped_queue_full p'
                 = packets_dropped_queue_full ?p1 + of_nat (length xs)"
      and same: "watcher p' = watcher ?p1"
                "processor_packets_processed p' = processor_packets_processed ?p1"
      using free0 by auto
    show ?thesis
      using step rest inv' cnt same free0
      by (intro exI [of _ p']) simp
  qed
qed

text \<open>
  C8. On a queue in the shape its operations leave it in, with at least two slots: a
  submission that finds the queue full returns false, changes nothing but the queue-full
  drop counter, which grows by one, and so leaves the packet out of the queue and away
  from the engine; a submission that finds room returns true, appends its job and leaves
  that counter alone; and a run of more submissions than the queue has slots, with no
  dequeue in between, has at least one rejection, the counter growing by the number of
  rejections. The processor's own queue has 32768 slots.
\<close>

theorem queue_full_rejections:
  assumes inv: "queue_inv cap (queue p)" and cap: "2 \<le> cap"
  shows "(length (queue_jobs cap (queue p)) = cap \<longrightarrow>
            submitPacket cap t bs src dst sport dport p
              = Some (False, p\<lparr>packets_dropped_queue_full :=
                                  packets_dropped_queue_full p + 1\<rparr>))
       \<and> (length (queue_jobs cap (queue p)) < cap \<longrightarrow>
            (\<exists>p'. submitPacket cap t bs src dst sport dport p = Some (True, p')
                 \<and> packets_dropped_queue_full p' = packets_dropped_queue_full p
                 \<and> queue_jobs cap (queue p')
                     = queue_jobs cap (queue p) @ [new_job t bs src dst sport dport]))
       \<and> (cap < length xs \<longrightarrow>
            (\<exists>rs p'. submit_all cap xs p = Some (rs, p')
                 \<and> False \<in> set rs
                 \<and> packets_dropped_queue_full p'
                     = packets_dropped_queue_full p + of_nat (length (filter Not rs))
                 \<and> watcher p' = watcher p))"
proof (intro conjI impI)
  have bounds: "dequeue_pos (queue p) \<le> enqueue_pos (queue p)"
    "enqueue_pos (queue p) \<le> dequeue_pos (queue p) + cap"
    using inv by (auto simp: queue_inv_unfold)
  {
    assume "length (queue_jobs cap (queue p)) = cap"
    then have "enqueue_pos (queue p) = dequeue_pos (queue p) + cap"
      using bounds by (simp add: length_queue_jobs)
    then show "submitPacket cap t bs src dst sport dport p
              = Some (False, p\<lparr>packets_dropped_queue_full :=
                                  packets_dropped_queue_full p + 1\<rparr>)"
      by (rule submitPacket_full [OF inv _ cap])
  }
  {
    assume "length (queue_jobs cap (queue p)) < cap"
    then have room: "enqueue_pos (queue p) < dequeue_pos (queue p) + cap"
      using bounds by (simp add: length_queue_jobs)
    show "\<exists>p'. submitPacket cap t bs src dst sport dport p = Some (True, p')
                 \<and> packets_dropped_queue_full p' = packets_dropped_queue_full p
                 \<and> queue_jobs cap (queue p')
                     = queue_jobs cap (queue p) @ [new_job t bs src dst sport dport]"
      using submitPacket_room [OF inv room] enqueued_jobs [OF inv room] by simp
  }
  {
    assume more: "cap < length xs"
    have free: "free_slots cap (queue p) \<le> cap"
      using bounds by (simp add: free_slots_def)
    from submit_all_results [OF cap inv, of xs] obtain p' where
      res: "submit_all cap xs p
                 = Some (replicate (min (length xs) (free_slots cap (queue p))) True
                         @ replicate (length xs - free_slots cap (queue p)) False, p')"
      and cnt: "packets_dropped_queue_full p'
                 = packets_dropped_queue_full p
                   + of_nat (length xs - free_slots cap (queue p))"
      and same: "watcher p' = watcher p"
      by blast
    have "0 < length xs - free_slots cap (queue p)" using more free by simp
    then show "\<exists>rs p'. submit_all cap xs p = Some (rs, p')
                 \<and> False \<in> set rs
                 \<and> packets_dropped_queue_full p'
                     = packets_dropped_queue_full p + of_nat (length (filter Not rs))
                 \<and> watcher p' = watcher p"
      using res cnt same by (intro exI conjI) (assumption | simp)+
  }
qed

lemma sample_full_processor_eq:
  "sample_full_processor =
     sample_processor\<lparr>queue :=
        enqueued 2 (job_of (sample_submission 2))
          (enqueued 2 (job_of (sample_submission 1)) (queue sample_processor)),
        packets_queued := 2\<rparr>"
  by (simp add: sample_full_processor_def sample_processor_def PacketProcessor_start_def
      PacketProcessor_init_def PacketQueue_init_def upt_rec submitPacket_def enqueue_def
      enqueue_from.simps enqueued_def job_of_def)

lemma sample_processor_queue:
  "queue sample_processor = PacketQueue_init 2"
  by (simp add: sample_processor_def PacketProcessor_start_def PacketProcessor_init_def)

theorem queue_full_rejections_witness:
  "queue_inv 2 (queue sample_full_processor) \<and> (2 :: nat) \<le> 2
   \<and> length (queue_jobs 2 (queue sample_full_processor)) = 2
   \<and> submitPacket 2 3 [] 10 20 5000 502 sample_full_processor
       = Some (False, sample_full_processor\<lparr>packets_dropped_queue_full := 1\<rparr>)
   \<and> length (queue_jobs 2 (queue sample_processor)) < 2
   \<and> 2 < length (map sample_submission [1, 2, 3])
   \<and> (\<exists>rs p'. submit_all 2 (map sample_submission [1, 2, 3]) sample_processor = Some (rs, p')
         \<and> False \<in> set rs
         \<and> packets_dropped_queue_full p' = of_nat (length (filter Not rs)))"
proof -
  have q0: "queue_inv 2 (queue sample_processor)"
    by (simp add: sample_processor_queue queue_inv_def PacketQueue_init_def upt_rec)
  have q2: "queue_inv 2 (queue sample_full_processor)"
    by (simp add: sample_full_processor_eq sample_processor_queue queue_inv_def
        PacketQueue_init_def enqueued_def upt_rec)
  have two: "(2 :: nat) \<le> 2" by simp
  have len2: "length (queue_jobs 2 (queue sample_full_processor)) = 2"
    by (simp add: sample_full_processor_eq sample_processor_queue queue_jobs_def
        PacketQueue_init_def enqueued_def)
  have len0: "length (queue_jobs 2 (queue sample_processor)) < 2"
    by (simp add: sample_processor_queue queue_jobs_def PacketQueue_init_def)
  have drops0: "packets_dropped_queue_full sample_processor = 0"
    "packets_dropped_queue_full sample_full_processor = 0"
    by (simp_all add: sample_full_processor_eq sample_processor_def PacketProcessor_start_def
        PacketProcessor_init_def)
  have more: "2 < length (map sample_submission [1, 2, 3])" by simp
  show ?thesis
    using queue_full_rejections [OF q2 two, of 3 "[]" 10 20 5000 502 "[]"]
      queue_full_rejections [OF q0 two, of 3 "[]" 10 20 5000 502 "map sample_submission [1, 2, 3]"]
      q2 len2 len0 more drops0
    by (simp del: submit_all.simps list.map) blast
qed
section \<open>Properties of stopping the processor\<close>

lemma worker_step_test:
  "pc w = LoopTest \<Longrightarrow>
   worker_step env rd cap w p
     = Some (w\<lparr>pc := (if processor_running p then LoopBody else Exited)\<rparr>, p)"
  by (simp add: worker_step_def)

lemma worker_step_body_empty:
  assumes "pc w = LoopBody" "queue_inv cap (queue p)" "0 < cap"
    "queue_jobs cap (queue p) = []"
  shows "worker_step env rd cap w p = Some (w\<lparr>pc := LoopTest\<rparr>, p)"
proof -
  have "dequeue_pos (queue p) = enqueue_pos (queue p)"
    using assms(2,4) length_queue_jobs [of cap "queue p"] by (simp add: queue_inv_unfold)
  then have "dequeue cap (queue p) = Some (None, queue p)"
    using assms by (intro dequeue_empty) auto
  then show ?thesis using assms(1) by (simp add: worker_step_def)
qed

lemma worker_step_body_job:
  assumes "pc w = LoopBody" "queue_inv cap (queue p)" "queue_jobs cap (queue p) \<noteq> []"
  shows "\<exists>w' p'. worker_step env rd cap w p = Some (w', p') \<and> pc w' = LoopTest
           \<and> queue p' = dequeued cap (queue p)
           \<and> processor_running p' = processor_running p
           \<and> processor_packets_processed p' = processor_packets_processed p + 1
           \<and> packets_dropped_queue_full p' = packets_dropped_queue_full p"
proof -
  have "dequeue_pos (queue p) < enqueue_pos (queue p)"
    using assms(3) length_queue_jobs [of cap "queue p"] by (cases "queue_jobs cap (queue p)") auto
  then have "dequeue cap (queue p) = Some (Some (hd (queue_jobs cap (queue p))), dequeued cap (queue p))"
    using assms by (intro dequeue_nonempty) auto
  then show ?thesis using assms(1) by (simp add: worker_step_def Let_def)
qed

lemma run_to_exit_stopped:
  assumes stopped: "\<not> processor_running p" and inv: "queue_inv cap (queue p)" and cap: "0 < cap"
  shows "\<exists>w' p'. run_to_exit env rd cap w p = Some (w', p') \<and> pc w' = Exited
           \<and> \<not> processor_running p' \<and> queue_inv cap (queue p')
           \<and> queue_jobs cap (queue p')
               = drop (if pc w = LoopBody then 1 else 0) (queue_jobs cap (queue p))
           \<and> processor_packets_processed p'
               = processor_packets_processed p
                 + of_nat (min (if pc w = LoopBody then 1 else 0)
                             (length (queue_jobs cap (queue p))))"
proof (cases "pc w")
  case Exited
  then show ?thesis using assms by (subst run_to_exit.simps) simp
next
  case LoopTest
  have "run_to_exit env rd cap w p = run_to_exit env rd cap (w\<lparr>pc := Exited\<rparr>) p"
    using LoopTest stopped by (subst run_to_exit.simps) (simp add: worker_step_test)
  also have "\<dots> = Some (w\<lparr>pc := Exited\<rparr>, p)"
    by (subst run_to_exit.simps) simp
  finally show ?thesis using assms LoopTest by simp
next
  case LoopBody
  show ?thesis
  proof (cases "queue_jobs cap (queue p) = []")
    case True
    have "run_to_exit env rd cap w p = run_to_exit env rd cap (w\<lparr>pc := LoopTest\<rparr>) p"
      using LoopBody by (subst run_to_exit.simps)
        (simp add: worker_step_body_empty [OF LoopBody inv cap True])
    also have "\<dots> = run_to_exit env rd cap (w\<lparr>pc := Exited\<rparr>) p"
      using stopped by (subst run_to_exit.simps) (simp add: worker_step_test)
    also have "\<dots> = Some (w\<lparr>pc := Exited\<rparr>, p)"
      by (subst run_to_exit.simps) simp
    finally show ?thesis using assms LoopBody True by simp
  next
    case False
    from worker_step_body_job [OF LoopBody inv False, of env rd] obtain w1 p1 where
      step: "worker_step env rd cap w p = Some (w1, p1)" and pc1: "pc w1 = LoopTest"
      and q1: "queue p1 = dequeued cap (queue p)"
      and run1: "processor_running p1 = processor_running p"
      and cnt1: "processor_packets_processed p1 = processor_packets_processed p + 1"
      by blast
    have ne: "dequeue_pos (queue p) < enqueue_pos (queue p)"
      using False length_queue_jobs [of cap "queue p"] by (cases "queue_jobs cap (queue p)") auto
    have "run_to_exit env rd cap w p = run_to_exit env rd cap w1 p1"
      using LoopBody step by (subst run_to_exit.simps) simp
    also have "\<dots> = run_to_exit env rd cap (w1\<lparr>pc := Exited\<rparr>) p1"
      using stopped run1 pc1 by (subst run_to_exit.simps) (simp add: worker_step_test)
    also have "\<dots> = Some (w1\<lparr>pc := Exited\<rparr>, p1)"
      by (subst run_to_exit.simps) simp
    finally have "run_to_exit env rd cap w p = Some (w1\<lparr>pc := Exited\<rparr>, p1)" .
    moreover have "queue_inv cap (queue p1)"
      using dequeued_inv [OF inv ne] q1 by simp
    moreover have "queue_jobs cap (queue p1) = drop 1 (queue_jobs cap (queue p))"
      using dequeued_jobs [OF inv ne] q1 by (simp add: drop_Suc)
    moreover have "min 1 (length (queue_jobs cap (queue p))) = 1"
      using False by (cases "queue_jobs cap (queue p)") auto
    ultimately show ?thesis
      using LoopBody stopped run1 cnt1 by simp
  qed
qed

lemma join_all_stopped:
  assumes cap: "0 < cap"
  shows "\<not> processor_running p \<Longrightarrow> queue_inv cap (queue p) \<Longrightarrow>
         \<exists>p'. join_all env rd cap ws p = Some p' \<and> \<not> processor_running p'
           \<and> queue_inv cap (queue p')
           \<and> queue_jobs cap (queue p') = drop (in_body ws) (queue_jobs cap (queue p))
           \<and> processor_packets_processed p'
               = processor_packets_processed p
                 + of_nat (min (in_body ws) (length (queue_jobs cap (queue p))))"
proof (induction ws arbitrary: p)
  case Nil
  then show ?case by (simp add: in_body_def)
next
  case (Cons w ws)
  let ?k = "if pc w = LoopBody then 1 else 0 :: nat"
  from run_to_exit_stopped [OF Cons.prems cap, of env rd w] obtain w1 p1 where
    run: "run_to_exit env rd cap w p = Some (w1, p1)"
    and st1: "\<not> processor_running p1" and inv1: "queue_inv cap (queue p1)"
    and jobs1: "queue_jobs cap (queue p1) = drop ?k (queue_jobs cap (queue p))"
    and cnt1: "processor_packets_processed p1
               = processor_packets_processed p + of_nat (min ?k (length (queue_jobs cap (queue p))))"
    by blast
  from Cons.IH [OF st1 inv1] obtain p' where
    rest: "join_all env rd cap ws p1 = Some p'" and st': "\<not> processor_running p'"
    and inv': "queue_inv cap (queue p')"
    and jobs': "queue_jobs cap (queue p') = drop (in_body ws) (queue_jobs cap (queue p1))"
    and cnt': "processor_packets_processed p'
               = processor_packets_processed p1
                 + of_nat (min (in_body ws) (length (queue_jobs cap (queue p1))))"
    by blast
  have body: "in_body (w # ws) = ?k + in_body ws" by (simp add: in_body_def)
  have jobs: "queue_jobs cap (queue p') = drop (in_body (w # ws)) (queue_jobs cap (queue p))"
    unfolding jobs' jobs1 body by (simp add: add.commute)
  have "min ?k (length (queue_jobs cap (queue p)))
          + min (in_body ws) (length (queue_jobs cap (queue p1)))
        = min (in_body (w # ws)) (length (queue_jobs cap (queue p)))"
    unfolding jobs1 body by (auto simp: min_def)
  then have cnt: "processor_packets_processed p'
        = processor_packets_processed p
          + of_nat (min (in_body (w # ws)) (length (queue_jobs cap (queue p))))"
    unfolding cnt' cnt1 by (metis (no_types) add.assoc of_nat_add)
  show ?case using run rest st' inv' jobs cnt by simp
qed

subsection \<open>The queue of a processor keeps its shape\<close>

lemma PacketProcessor_init_inv: "queue_inv cap (queue (PacketProcessor_init cap w n))"
  by (simp add: PacketProcessor_init_def queue_inv_init)

lemma PacketProcessor_start_inv:
  "queue_inv cap (queue p) \<Longrightarrow> queue_inv cap (queue (PacketProcessor_start p))"
  by (simp add: PacketProcessor_start_def)

lemma submitPacket_inv:
  assumes "queue_inv cap (queue p)" "2 \<le> cap"
  shows "\<exists>r p'. submitPacket cap t bs src dst sport dport p = Some (r, p')
           \<and> queue_inv cap (queue p')"
proof (cases "enqueue_pos (queue p) < dequeue_pos (queue p) + cap")
  case True
  let ?p1 = "p\<lparr>queue := enqueued cap (new_job t bs src dst sport dport) (queue p),
               packets_queued := packets_queued p + 1\<rparr>"
  have "queue_inv cap (queue ?p1)"
    using enqueued_inv [OF assms(1) True] by simp
  moreover have "submitPacket cap t bs src dst sport dport p = Some (True, ?p1)"
    by (rule submitPacket_room [OF assms(1) True])
  ultimately show ?thesis by blast
next
  case False
  then have full: "enqueue_pos (queue p) = dequeue_pos (queue p) + cap"
    using assms(1) by (simp add: queue_inv_unfold)
  let ?p1 = "p\<lparr>packets_dropped_queue_full := packets_dropped_queue_full p + 1\<rparr>"
  have "queue_inv cap (queue ?p1)" using assms(1) by simp
  moreover have "submitPacket cap t bs src dst sport dport p = Some (False, ?p1)"
    by (rule submitPacket_full [OF assms(1) full assms(2)])
  ultimately show ?thesis by blast
qed

lemma worker_step_inv:
  assumes "queue_inv cap (queue p)" "0 < cap"
  shows "\<exists>w' p'. worker_step env rd cap w p = Some (w', p') \<and> queue_inv cap (queue p')"
proof (cases "pc w")
  case LoopBody
  show ?thesis
  proof (cases "queue_jobs cap (queue p) = []")
    case True
    have "worker_step env rd cap w p = Some (w\<lparr>pc := LoopTest\<rparr>, p)"
      by (rule worker_step_body_empty [OF LoopBody assms True])
    then show ?thesis using assms(1) by blast
  next
    case False
    then have "dequeue_pos (queue p) < enqueue_pos (queue p)"
      using length_queue_jobs [of cap "queue p"] by (cases "queue_jobs cap (queue p)") auto
    then have "queue_inv cap (dequeued cap (queue p))"
      by (rule dequeued_inv [OF assms(1)])
    then show ?thesis
      using worker_step_body_job [OF LoopBody assms(1) False, of env rd] by auto
  qed
qed (use assms in \<open>simp_all add: worker_step_def\<close>)

text \<open>
  C6, as the code has it. A worker tests \<^verbatim>\<open>running_\<close> before every dequeue and returns as
  soon as it reads false, whatever the queue holds. So stopping the processor lets each
  worker that is inside its loop body finish that one pass (at most one job each) and
  then joins them all: the jobs still enqueued stay in the queue, unprocessed. Workers
  terminate once \<^verbatim>\<open>running_\<close> is false, drained queue or not.
\<close>

theorem stop_leaves_queued_jobs:
  assumes inv: "queue_inv cap (queue p)" and cap: "0 < cap"
  shows "(\<not> processor_running p \<and> pc w = LoopTest \<longrightarrow>
            worker_step env rd cap w p = Some (w\<lparr>pc := Exited\<rparr>, p))
       \<and> (processor_running p \<longrightarrow>
            (\<exists>p'. PacketProcessor_stop env rd cap p = Some p'
                 \<and> \<not> processor_running p' \<and> workers p' = []
                 \<and> queue_jobs cap (queue p')
                     = drop (in_body (workers p)) (queue_jobs cap (queue p))
                 \<and> processor_packets_processed p'
                     = processor_packets_processed p
                       + of_nat (min (in_body (workers p))
                                   (length (queue_jobs cap (queue p))))))"
proof (intro conjI impI)
  assume "\<not> processor_running p \<and> pc w = LoopTest"
  then show "worker_step env rd cap w p = Some (w\<lparr>pc := Exited\<rparr>, p)"
    by (simp add: worker_step_test)
next
  assume running: "processor_running p"
  let ?p0 = "p\<lparr>processor_running := False\<rparr>"
  have "\<not> processor_running ?p0" "queue_inv cap (queue ?p0)" using inv by simp_all
  from join_all_stopped [OF cap this, of env rd "workers p"] obtain p1 where
    "join_all env rd cap (workers p) ?p0 = Some p1" "\<not> processor_running p1"
    "queue_jobs cap (queue p1) = drop (in_body (workers p)) (queue_jobs cap (queue p))"
    "processor_packets_processed p1
       = processor_packets_processed p
         + of_nat (min (in_body (workers p)) (length (queue_jobs cap (queue p))))"
    by auto
  then show "\<exists>p'. PacketProcessor_stop env rd cap p = Some p'
                 \<and> \<not> processor_running p' \<and> workers p' = []
                 \<and> queue_jobs cap (queue p')
                     = drop (in_body (workers p)) (queue_jobs cap (queue p))
                 \<and> processor_packets_processed p'
                     = processor_packets_processed p
                       + of_nat (min (in_body (workers p))
                                   (length (queue_jobs cap (queue p))))"
    using running by (simp add: PacketProcessor_stop_def)
qed

lemma sample_full_processor_jobs:
  "queue_jobs 2 (queue sample_full_processor)
     = [job_of (sample_submission 1), job_of (sample_submission 2)]"
  by (simp add: sample_full_processor_eq sample_processor_queue queue_jobs_def
      PacketQueue_init_def enqueued_def upt_rec)

lemma sample_full_processor_workers:
  "workers sample_full_processor = [\<lparr>pc = LoopTest, local_job = PacketJob_default\<rparr>]"
  "processor_running sample_full_processor"
  "processor_packets_processed sample_full_processor = 0"
  by (simp_all add: sample_full_processor_eq sample_processor_def PacketProcessor_start_def
      PacketProcessor_init_def)

text \<open>
  A running processor with one idle worker and two jobs in its queue is stopped: the stop
  completes, both jobs are still in the queue and none has been processed.
\<close>

theorem stop_abandons_two_queued_jobs:
  "processor_running sample_full_processor
   \<and> queue_jobs 2 (queue sample_full_processor)
       = [job_of (sample_submission 1), job_of (sample_submission 2)]
   \<and> processor_packets_processed sample_full_processor = 0
   \<and> PacketProcessor_stop sample_components sample_readings 2 sample_full_processor
       = Some (sample_full_processor\<lparr>processor_running := False, workers := []\<rparr>)"
  by (simp add: sample_full_processor_jobs sample_full_processor_workers
      PacketProcessor_stop_def run_to_exit.simps worker_step_def)

theorem stop_leaves_queued_jobs_witness:
  "queue_inv 2 (queue sample_full_processor) \<and> (0 :: nat) < 2
   \<and> processor_running sample_full_processor
   \<and> (\<exists>p'. PacketProcessor_stop sample_components sample_readings 2 sample_full_processor
              = Some p'
         \<and> \<not> processor_running p' \<and> workers p' = []
         \<and> queue_jobs 2 (queue p')
             = [job_of (sample_submission 1), job_of (sample_submission 2)]
         \<and> processor_packets_processed p' = 0)
   \<and> worker_step sample_components sample_readings 2
        \<lparr>pc = LoopTest, local_job = PacketJob_default\<rparr>
        (sample_full_processor\<lparr>processor_running := False\<rparr>)
       = Some (\<lparr>pc = Exited, local_job = PacketJob_default\<rparr>,
               sample_full_processor\<lparr>processor_running := False\<rparr>)"
proof -
  have q2: "queue_inv 2 (queue sample_full_processor)"
    by (simp add: sample_full_processor_eq sample_processor_queue queue_inv_def
        PacketQueue_init_def enqueued_def upt_rec)
  then have q2': "queue_inv 2 (queue (sample_full_processor\<lparr>processor_running := False\<rparr>))"
    by simp
  have pos: "(0 :: nat) < 2" by simp
  have none: "in_body (workers sample_full_processor) = 0"
    by (simp add: sample_full_processor_workers in_body_def)
  show ?thesis
    using stop_leaves_queued_jobs [OF q2 pos,
            where w = "\<lparr>pc = LoopTest, local_job = PacketJob_default\<rparr>"
              and env = sample_components and rd = sample_readings]
      stop_leaves_queued_jobs [OF q2' pos,
            where w = "\<lparr>pc = LoopTest, local_job = PacketJob_default\<rparr>"
              and env = sample_components and rd = sample_readings]
      q2 none sample_full_processor_workers(2,3) sample_full_processor_jobs
    by simp
qed

section \<open>Properties of stopping the logger\<close>

lemma writeLog_open:
  assumes "file_open lg"
  shows "log_file (writeLog e lg) = log_file lg @ [e]"
    and "log_queue (writeLog e lg) = log_queue lg"
    and "file_open (writeLog e lg)"
    and "logs_written (writeLog e lg) = logs_written lg + 1"
    and "logger_running (writeLog e lg) = logger_running lg"
  using assms by (simp_all add: writeLog_def Let_def)

lemma writer_iteration_open:
  assumes "file_open lg"
  shows "log_file (writer_iteration lg) @ log_queue (writer_iteration lg)
           = log_file lg @ log_queue lg"
    and "file_open (writer_iteration lg)"
    and "logs_written (writer_iteration lg) + of_nat (length (log_queue (writer_iteration lg)))
           = logs_written lg + of_nat (length (log_queue lg))"
    and "logger_running (writer_iteration lg) = logger_running lg"
  using assms by (simp_all add: writer_iteration_def writeLog_open split: list.split)

lemma writer_iterations_open:
  assumes "file_open lg"
  shows "log_file ((writer_iteration ^^ k) lg) @ log_queue ((writer_iteration ^^ k) lg)
           = log_file lg @ log_queue lg
       \<and> file_open ((writer_iteration ^^ k) lg)
       \<and> logs_written ((writer_iteration ^^ k) lg)
           + of_nat (length (log_queue ((writer_iteration ^^ k) lg)))
           = logs_written lg + of_nat (length (log_queue lg))
       \<and> logger_running ((writer_iteration ^^ k) lg) = logger_running lg"
proof (induction k)
  case 0
  show ?case using assms by simp
next
  case (Suc k)
  then show ?case using writer_iteration_open [of "(writer_iteration ^^ k) lg"] by simp
qed

lemma flush_entries_open:
  "file_open lg \<Longrightarrow>
     log_file (flush_entries es lg) = log_file lg @ es
   \<and> log_queue (flush_entries es lg) = log_queue lg
   \<and> logs_written (flush_entries es lg) = logs_written lg + of_nat (length es)
   \<and> logger_running (flush_entries es lg) = logger_running lg"
  by (induction es arbitrary: lg) (simp_all add: writeLog_open)

lemma stop_running_logger:
  assumes "logger_running lg" and "file_open lg"
  shows "log_queue (Logger_stop k lg) = []
       \<and> log_file (Logger_stop k lg) = log_file lg @ log_queue lg
       \<and> logs_written (Logger_stop k lg) = logs_written lg + of_nat (length (log_queue lg))
       \<and> \<not> file_open (Logger_stop k lg) \<and> \<not> logger_running (Logger_stop k lg)"
proof -
  let ?lg1 = "lg\<lparr>logger_running := False\<rparr>"
  let ?lg2 = "(writer_iteration ^^ k) ?lg1"
  have open1: "file_open ?lg1" using assms by simp
  from writer_iterations_open [OF open1, of k]
  have w: "log_file ?lg2 @ log_queue ?lg2 = log_file lg @ log_queue lg"
    "file_open ?lg2"
    "logs_written ?lg2 + of_nat (length (log_queue ?lg2))
       = logs_written lg + of_nat (length (log_queue lg))"
    "\<not> logger_running ?lg2"
    by simp_all
  have open2: "file_open (?lg2\<lparr>log_queue := []\<rparr>)" using w(2) by simp
  from flush_entries_open [OF open2, of "log_queue ?lg2"]
  have f: "log_file (flush_remaining ?lg2) = log_file ?lg2 @ log_queue ?lg2"
    "log_queue (flush_remaining ?lg2) = []"
    "logs_written (flush_remaining ?lg2) = logs_written ?lg2 + of_nat (length (log_queue ?lg2))"
    "\<not> logger_running (flush_remaining ?lg2)"
    using w(4) by (simp_all add: flush_remaining_def)
  show ?thesis
    using assms w f by (simp add: Logger_stop_def Let_def)
qed

lemma writeLog_running: "logger_running (writeLog e lg) = logger_running lg"
  by (simp add: writeLog_def Let_def)

lemma writer_iteration_running: "logger_running (writer_iteration lg) = logger_running lg"
  by (simp add: writer_iteration_def writeLog_running split: list.split)

lemma writer_iterations_running:
  "logger_running ((writer_iteration ^^ k) lg) = logger_running lg"
  by (induction k) (simp_all add: writer_iteration_running)

lemma flush_entries_running: "logger_running (flush_entries es lg) = logger_running lg"
  by (induction es arbitrary: lg) (simp_all add: writeLog_running)

lemma stop_not_running: "\<not> logger_running (Logger_stop k lg)"
  by (simp add: Logger_stop_def Let_def flush_remaining_def flush_entries_running
      writer_iterations_running)

lemma stop_idle_logger: "\<not> logger_running lg \<Longrightarrow> Logger_stop k lg = lg"
  by (simp add: Logger_stop_def)

text \<open>
  C7, as the code has it. When the logger is running and its file is open (it was
  started and not stopped before), \<^verbatim>\<open>stop\<close> leaves the ring empty and the file holding,
  after what it held, every record that was in the ring, in ring order, however many of
  them the writer thread took before it left; the file is closed after that. A stop on a
  logger that is not running, because it was never started or because it was stopped
  already, returns the logger as it is: nothing is written and the ring keeps its records.
  Every stop leaves the logger not running, so a second stop is of that kind, also after
  records were logged in between.
\<close>

theorem stop_flushes_running_logger:
  "(logger_running lg \<and> file_open lg \<longrightarrow>
      log_queue (Logger_stop k lg) = []
      \<and> log_file (Logger_stop k lg) = log_file lg @ log_queue lg
      \<and> logs_written (Logger_stop k lg) = logs_written lg + of_nat (length (log_queue lg))
      \<and> \<not> file_open (Logger_stop k lg))
   \<and> (\<not> logger_running lg \<longrightarrow> Logger_stop k lg = lg)
   \<and> \<not> logger_running (Logger_stop k lg)
   \<and> Logger_stop k2 (Logger_stop k lg) = Logger_stop k lg
   \<and> Logger_stop k2 (Logger_log t lvl src msg thr (Logger_stop k lg))
       = Logger_log t lvl src msg thr (Logger_stop k lg)"
proof (intro conjI impI)
  assume "logger_running lg \<and> file_open lg"
  then have r: "logger_running lg" and f: "file_open lg" by simp_all
  note s = stop_running_logger [OF r f, of k]
  show "log_queue (Logger_stop k lg) = []" using s by simp
  show "log_file (Logger_stop k lg) = log_file lg @ log_queue lg" using s by simp
  show "logs_written (Logger_stop k lg) = logs_written lg + of_nat (length (log_queue lg))"
    using s by simp
  show "\<not> file_open (Logger_stop k lg)" using s by simp
next
  assume "\<not> logger_running lg"
  then show "Logger_stop k lg = lg" by (rule stop_idle_logger)
next
  show "\<not> logger_running (Logger_stop k lg)" by (rule stop_not_running)
  then show "Logger_stop k2 (Logger_stop k lg) = Logger_stop k lg" by (rule stop_idle_logger)
  have "\<not> logger_running (Logger_log t lvl src msg thr (Logger_stop k lg))"
    using stop_not_running [of k lg] by (simp add: Logger_log_def)
  then show "Logger_stop k2 (Logger_log t lvl src msg thr (Logger_stop k lg))
       = Logger_log t lvl src msg thr (Logger_stop k lg)"
    by (rule stop_idle_logger)
qed

text \<open>
  A logger that was constructed but not started accepts a record; its stop returns at
  once, the record is still in the ring and the file has nothing.
\<close>

theorem stop_skips_logger_not_started:
  "\<not> logger_running (Logger_info 5 ''App'' ''hello'' sample_logger)
   \<and> log_queue (Logger_info 5 ''App'' ''hello'' sample_logger)
       = [\<lparr>log_timestamp = 5, level = Level_INFO, source = ''App'', message = ''hello'',
           threat = None\<rparr>]
   \<and> Logger_stop 0 (Logger_info 5 ''App'' ''hello'' sample_logger)
       = Logger_info 5 ''App'' ''hello'' sample_logger
   \<and> log_file (Logger_stop 0 (Logger_info 5 ''App'' ''hello'' sample_logger)) = []"
  by (simp add: sample_logger_def Logger_init_def Logger_info_def Logger_log_def
      LOG_QUEUE_CAPACITY_def Logger_stop_def)

theorem stop_flushes_running_logger_witness:
  "logger_running (Logger_info 5 ''App'' ''hello'' (Logger_start sample_logger))
   \<and> file_open (Logger_info 5 ''App'' ''hello'' (Logger_start sample_logger))
   \<and> log_queue (Logger_stop 0 (Logger_info 5 ''App'' ''hello'' (Logger_start sample_logger)))
       = []
   \<and> log_file (Logger_stop 0 (Logger_info 5 ''App'' ''hello'' (Logger_start sample_logger)))
       = [\<lparr>log_timestamp = 5, level = Level_INFO, source = ''App'', message = ''hello'',
           threat = None\<rparr>]
   \<and> \<not> logger_running (Logger_info 5 ''App'' ''hello'' sample_logger)
   \<and> Logger_stop 3 (Logger_info 5 ''App'' ''hello'' sample_logger)
       = Logger_info 5 ''App'' ''hello'' sample_logger
   \<and> Logger_stop 1
        (Logger_log 6 Level_INFO ''App'' ''late'' None
           (Logger_stop 0 (Logger_info 5 ''App'' ''hello'' (Logger_start sample_logger))))
       = Logger_log 6 Level_INFO ''App'' ''late'' None
           (Logger_stop 0 (Logger_info 5 ''App'' ''hello'' (Logger_start sample_logger)))"
proof -
  have r: "logger_running (Logger_info 5 ''App'' ''hello'' (Logger_start sample_logger))"
    and f: "file_open (Logger_info 5 ''App'' ''hello'' (Logger_start sample_logger))"
    and idle: "\<not> logger_running (Logger_info 5 ''App'' ''hello'' sample_logger)"
    by (simp_all add: sample_logger_def Logger_init_def Logger_info_def Logger_log_def
        LOG_QUEUE_CAPACITY_def Logger_start_def)
  have q: "log_file (Logger_info 5 ''App'' ''hello'' (Logger_start sample_logger)) = []"
    "log_queue (Logger_info 5 ''App'' ''hello'' (Logger_start sample_logger))
       = [\<lparr>log_timestamp = 5, level = Level_INFO, source = ''App'', message = ''hello'',
           threat = None\<rparr>]"
    by (simp_all add: sample_logger_def Logger_init_def Logger_info_def Logger_log_def
        LOG_QUEUE_CAPACITY_def Logger_start_def)
  note running = stop_flushes_running_logger
    [where lg = "Logger_info 5 ''App'' ''hello'' (Logger_start sample_logger)" and k = 0
       and ?k2.0 = 1 and t = 6 and lvl = Level_INFO and src = "''App''" and msg = "''late''"
       and thr = None]
  note not_started = stop_flushes_running_logger
    [where lg = "Logger_info 5 ''App'' ''hello'' sample_logger" and k = 3]
  show ?thesis
    using running not_started r f idle q by simp
qed

section \<open>Properties of the decision engine\<close>

subsection \<open>The address caches\<close>

lemma BloomFilter_add_contains:
  "BloomFilter_contains h (BloomFilter_add h x bf) x"
  by (simp add: BloomFilter_contains_def BloomFilter_add_def list_all_iff)

lemma BloomFilter_contains_mono:
  "BloomFilter_contains h bf x \<Longrightarrow> bits bf \<subseteq> bits bf' \<Longrightarrow> BloomFilter_contains h bf' x"
  by (auto simp: BloomFilter_contains_def list_all_iff)

lemma BloomFilter_add_grows: "bits bf \<subseteq> bits (BloomFilter_add h x bf)"
  by (auto simp: BloomFilter_add_def)

lemma fold_add_grows: "bits bf \<subseteq> bits (fold (BloomFilter_add h) xs bf)"
proof (induction xs arbitrary: bf)
  case Nil show ?case by simp
next
  case (Cons x xs)
  have "bits bf \<subseteq> bits (BloomFilter_add h x bf)" by (rule BloomFilter_add_grows)
  also have "\<dots> \<subseteq> bits (fold (BloomFilter_add h) xs (BloomFilter_add h x bf))" by (rule Cons.IH)
  finally show ?case by simp
qed

lemma fold_add_contains:
  "x \<in> set xs \<Longrightarrow> BloomFilter_contains h (fold (BloomFilter_add h) xs bf) x"
proof (induction xs arbitrary: bf)
  case Nil then show ?case by simp
next
  case (Cons y ys)
  show ?case
  proof (cases "x = y")
    case True
    have "BloomFilter_contains h (BloomFilter_add h y bf) y" by (rule BloomFilter_add_contains)
    then have "BloomFilter_contains h (fold (BloomFilter_add h) ys (BloomFilter_add h y bf)) y"
      by (rule BloomFilter_contains_mono) (rule fold_add_grows)
    then show ?thesis using True by simp
  next
    case False
    then show ?thesis using Cons by simp
  qed
qed

subsection \<open>What the loop over the alerts leaves alone\<close>

lemma handleMitigationAction_frame:
  "stats (handleMitigationAction env t alert action s) = stats s"
  "whitelisted_ips_cache (handleMitigationAction env t alert action s) = whitelisted_ips_cache s"
  "blocked_ips_cache (handleMitigationAction env t alert action s) = blocked_ips_cache s"
  "mitigation (handleMitigationAction env t alert action s) = mitigation s"
  by (simp_all add: handleMitigationAction_def Let_def)

lemma process_threats_frame:
  "packets_processed (stats (snd (process_threats env rd src ths (d, s))))
     = packets_processed (stats s)
   \<and> packets_allowed (stats (snd (process_threats env rd src ths (d, s))))
     = packets_allowed (stats s)
   \<and> packets_dropped (stats (snd (process_threats env rd src ths (d, s))))
     = packets_dropped (stats s)
   \<and> whitelisted_ips_cache (snd (process_threats env rd src ths (d, s)))
     = whitelisted_ips_cache s"
proof (induction ths arbitrary: d s)
  case Nil
  show ?case by simp
next
  case (Cons thr rest)
  show ?case
    by (simp add: Let_def Cons.IH handleMitigationAction_frame incrementThreatsDetected_def)
qed

lemma recordLatency_frame:
  "stats (recordLatency rd s) = stats s"
  "whitelisted_ips_cache (recordLatency rd s) = whitelisted_ips_cache s"
  "blocked_ips_cache (recordLatency rd s) = blocked_ips_cache s"
  "mitigation (recordLatency rd s) = mitigation s"
  by (simp_all add: recordLatency_def)

lemma record_throughput_frame:
  "stats (record_throughput rd n s) = stats s"
  "whitelisted_ips_cache (record_throughput rd n s) = whitelisted_ips_cache s"
  "blocked_ips_cache (record_throughput rd n s) = blocked_ips_cache s"
  "mitigation (record_throughput rd n s) = mitigation s"
  by (simp_all add: record_throughput_def)

lemma process_pipeline_counts:
  "packets_processed (stats (snd (process_pipeline env rd bs src dst sport dport s)))
     = packets_processed (stats s)
   \<and> packets_allowed (stats (snd (process_pipeline env rd bs src dst sport dport s)))
     = packets_allowed (stats s)
        + (if fst (process_pipeline env rd bs src dst sport dport s) then 1 else 0)
   \<and> packets_dropped (stats (snd (process_pipeline env rd bs src dst sport dport s)))
     = packets_dropped (stats s)
        + (if fst (process_pipeline env rd bs src dst sport dport s) then 0 else 1)
   \<and> whitelisted_ips_cache (snd (process_pipeline env rd bs src dst sport dport s))
     = whitelisted_ips_cache s"
proof -
  let ?meta = "fst (buildPacketMetadata env s (now rd) bs src dst sport dport)"
  let ?s1 = "s\<lparr>analyzer := snd (analyze env (analyzer s) ?meta),
               metrics := (metrics s)\<lparr>threat_detection_latency :=
                 LatencyTracker_record (threat_elapsed_ns rd)
                   (threat_detection_latency (metrics s))\<rparr>\<rparr>"
  have keep: "stats ?s1 = stats s" "whitelisted_ips_cache ?s1 = whitelisted_ips_cache s"
    by simp_all
  note loop = process_threats_frame
    [of env rd src "fst (analyze env (analyzer s) ?meta)" False ?s1, unfolded keep]
  show ?thesis
    unfolding process_pipeline_def Let_def
    by (simp add: loop recordLatency_frame record_throughput_frame
        incrementPacketsDropped_def incrementPacketsAllowed_def)
qed

text \<open>
  C3. Every call of \<^verbatim>\<open>processPacket\<close> returns allow or drop (the function is total and
  its result is a truth value), adds exactly one to \<^verbatim>\<open>packets_processed\<close>, and adds
  exactly one to \<^verbatim>\<open>packets_allowed\<close> when it allows and to \<^verbatim>\<open>packets_dropped\<close> when it
  drops, leaving the other of the two as it was; this on every path, the two fast paths,
  the rate pre-check and the path through the analysis. The counters are 64-bit and the
  additions wrap.
\<close>

theorem processPacket_counts_once:
  "packets_processed (stats (snd (processPacket env rd bs src dst sport dport s)))
     = packets_processed (stats s) + 1
   \<and> packets_allowed (stats (snd (processPacket env rd bs src dst sport dport s)))
     = packets_allowed (stats s)
        + (if fst (processPacket env rd bs src dst sport dport s) then 1 else 0)
   \<and> packets_dropped (stats (snd (processPacket env rd bs src dst sport dport s)))
     = packets_dropped (stats s)
        + (if fst (processPacket env rd bs src dst sport dport s) then 0 else 1)"
proof -
  let ?s = "s\<lparr>stats := incrementPacketsProcessed (stats s)\<rparr>"
  note pipe = process_pipeline_counts [of env rd bs src dst sport dport ?s]
  show ?thesis
    unfolding processPacket_def whitelist_fast_path_def block_short_circuit_def Let_def
    using pipe
    by (simp add: recordLatency_frame record_throughput_frame incrementPacketsProcessed_def
        incrementPacketsDropped_def incrementPacketsAllowed_def)
qed

subsection \<open>The engine as constructed\<close>

lemma GridWatcher_init_opens:
  "GridWatcher_init env cfg ''grid_watcher.log'' True 0 = Inr (constructed env cfg)"
  by (simp add: constructed_def GridWatcher_init_def Logger_init_def)

lemma constructed_fields:
  "config (constructed env cfg) = cfg"
  "mitigation (constructed env cfg) = MitigationEngine_init cfg"
  "stats (constructed env cfg) = Statistics_init 0"
  "blocked_ips_cache (constructed env cfg) = BloomFilter_init"
  "whitelisted_ips_cache (constructed env cfg)
     = fold (BloomFilter_add (bloom_hash env)) (whitelisted_ips cfg) BloomFilter_init"
  by (simp_all add: constructed_def GridWatcher_init_def Logger_init_def)

theorem processPacket_counts_once_witness:
  "\<not> fst (processPacket sample_components sample_readings (replicate 5 0) 10 20 5000 502
            (constructed sample_components createDefault))
   \<and> packets_processed (stats (snd (processPacket sample_components sample_readings
         (replicate 5 0) 10 20 5000 502 (constructed sample_components createDefault)))) = 1
   \<and> packets_allowed (stats (snd (processPacket sample_components sample_readings
         (replicate 5 0) 10 20 5000 502 (constructed sample_components createDefault)))) = 0
   \<and> packets_dropped (stats (snd (processPacket sample_components sample_readings
         (replicate 5 0) 10 20 5000 502 (constructed sample_components createDefault)))) = 1"
proof -
  have dropped: "\<not> fst (processPacket sample_components sample_readings (replicate 5 0) 10 20
                          5000 502 (constructed sample_components createDefault))"
    by (simp add: constructed_def GridWatcher_init_def Logger_init_def Logger_start_def
        Logger_info_def Logger_log_def LOG_QUEUE_CAPACITY_def createDefault_def
        sample_components_def MitigationEngine_init_def Statistics_init_def
        MetricsManager_init_def BloomFilter_init_def
            processPacket_def whitelist_fast_path_def block_short_circuit_def
            process_pipeline_def
        BloomFilter_contains_def bloom_positions_def BLOOM_HASHES_def BLOOM_BITS_def upt_rec
        incrementPacketsProcessed_def buildPacketMetadata_def Let_def mitigate_def
        handleMitigationAction_def)
  show ?thesis
    using processPacket_counts_once
            [of sample_components sample_readings "replicate 5 0" 10 20 5000 502
                "constructed sample_components createDefault"] dropped
    by (simp add: constructed_fields Statistics_init_def)
qed

subsection \<open>The whitelist fast path\<close>

lemma processPacket_whitelist_hit:
  assumes "BloomFilter_contains (bloom_hash env) (whitelisted_ips_cache s) a"
  shows "processPacket env rd bs a dst sport dport s
           = whitelist_fast_path rd bs (s\<lparr>stats := incrementPacketsProcessed (stats s)\<rparr>)"
  using assms by (simp add: processPacket_def Let_def)

lemma processPacket_whitelist_cache:
  "whitelisted_ips_cache (snd (processPacket env rd bs src dst sport dport s))
     = whitelisted_ips_cache s"
  using process_pipeline_counts
          [of env rd bs src dst sport dport "s\<lparr>stats := incrementPacketsProcessed (stats s)\<rparr>"]
  by (simp add:
      processPacket_def whitelist_fast_path_def block_short_circuit_def
      Let_def recordLatency_frame record_throughput_frame)

lemma run_call_whitelist_cache:
  "bits (whitelisted_ips_cache s) \<subseteq> bits (whitelisted_ips_cache (run_call env c s))"
proof (cases c)
  case (ProcessPacket rd bs src dst sport dport)
  then show ?thesis by (simp add: processPacket_whitelist_cache)
next
  case (AddWhitelist t a)
  then show ?thesis by (simp add: addWhitelist_def BloomFilter_add_grows)
qed (simp_all add: blockIP_def unblockIP_def removeWhitelist_def cleanup_round_def Let_def)

lemma run_calls_whitelist_cache:
  "bits (whitelisted_ips_cache s) \<subseteq> bits (whitelisted_ips_cache (run_calls env cs s))"
  unfolding run_calls_def
proof (induction cs arbitrary: s)
  case Nil show ?case by simp
next
  case (Cons c cs)
  have "bits (whitelisted_ips_cache s) \<subseteq> bits (whitelisted_ips_cache (run_call env c s))"
    by (rule run_call_whitelist_cache)
  also have "\<dots> \<subseteq> bits (whitelisted_ips_cache (fold (run_call env) cs (run_call env c s)))"
    by (rule Cons.IH)
  finally show ?case by simp
qed

lemma whitelist_hit_persists:
  assumes "BloomFilter_contains (bloom_hash env) (whitelisted_ips_cache s) a"
  shows "BloomFilter_contains (bloom_hash env)
           (whitelisted_ips_cache
              (run_calls env after (removeWhitelist env t a (run_calls env between s)))) a"
proof -
  have "bits (whitelisted_ips_cache s)
          \<subseteq> bits (whitelisted_ips_cache (run_calls env between s))"
    by (rule run_calls_whitelist_cache)
  also have "\<dots> = bits (whitelisted_ips_cache (removeWhitelist env t a (run_calls env between s)))"
    by (simp add: removeWhitelist_def)
  also have "\<dots> \<subseteq> bits (whitelisted_ips_cache
              (run_calls env after (removeWhitelist env t a (run_calls env between s))))"
    by (rule run_calls_whitelist_cache)
  finally show ?thesis using assms by (rule BloomFilter_contains_mono [rotated])
qed

text \<open>
  C9. \<^verbatim>\<open>removeWhitelist\<close> takes the address out of the authoritative whitelist and leaves
  the whitelist cache as it was. An address that was added by \<^verbatim>\<open>addWhitelist\<close>, or listed
  in the configuration the engine was constructed from, is therefore still allowed by
  \<^verbatim>\<open>processPacket\<close> after it was removed, whatever calls came between and after: the
  cache never loses a bit, and a hit in it returns allow on the fast path, which does not
  consult the authoritative whitelist.
\<close>

theorem removeWhitelist_keeps_fast_path:
  "whitelisted_ips_cache (removeWhitelist env t a s) = whitelisted_ips_cache s
   \<and> \<not> isWhitelisted (mitigation (removeWhitelist env t a s)) a
   \<and> (s1 = run_calls env after
               (removeWhitelist env t a (run_calls env between (addWhitelist env t0 a s))) \<longrightarrow>
        processPacket env rd bs a dst sport dport s1
          = whitelist_fast_path rd bs (s1\<lparr>stats := incrementPacketsProcessed (stats s1)\<rparr>))
   \<and> (a \<in> set (whitelisted_ips cfg)
        \<and> s2 = run_calls env after
                 (removeWhitelist env t a (run_calls env between (constructed env cfg))) \<longrightarrow>
        processPacket env rd bs a dst sport dport s2
          = whitelist_fast_path rd bs (s2\<lparr>stats := incrementPacketsProcessed (stats s2)\<rparr>))
   \<and> fst (whitelist_fast_path rd bs s3)"
proof (intro conjI impI)
  show "whitelisted_ips_cache (removeWhitelist env t a s) = whitelisted_ips_cache s"
    by (simp add: removeWhitelist_def)
  show "\<not> isWhitelisted (mitigation (removeWhitelist env t a s)) a"
    by (simp add: removeWhitelist_def MitigationEngine_removeWhitelist_def isWhitelisted_def)
  show "fst (whitelist_fast_path rd bs s3)"
    by (simp add: whitelist_fast_path_def)
next
  assume s1: "s1 = run_calls env after
               (removeWhitelist env t a (run_calls env between (addWhitelist env t0 a s)))"
  have "BloomFilter_contains (bloom_hash env) (whitelisted_ips_cache (addWhitelist env t0 a s)) a"
    by (simp add: addWhitelist_def BloomFilter_add_contains)
  then have "BloomFilter_contains (bloom_hash env) (whitelisted_ips_cache s1) a"
    unfolding s1 by (rule whitelist_hit_persists)
  then show "processPacket env rd bs a dst sport dport s1
          = whitelist_fast_path rd bs (s1\<lparr>stats := incrementPacketsProcessed (stats s1)\<rparr>)"
    by (rule processPacket_whitelist_hit)
next
  assume "a \<in> set (whitelisted_ips cfg)
        \<and> s2 = run_calls env after
                 (removeWhitelist env t a (run_calls env between (constructed env cfg)))"
  then have listed: "a \<in> set (whitelisted_ips cfg)"
    and s2: "s2 = run_calls env after
                 (removeWhitelist env t a (run_calls env between (constructed env cfg)))"
    by simp_all
  have "BloomFilter_contains (bloom_hash env) (whitelisted_ips_cache (constructed env cfg)) a"
    using listed by (simp add: constructed_fields fold_add_contains)
  then have "BloomFilter_contains (bloom_hash env) (whitelisted_ips_cache s2) a"
    unfolding s2 by (rule whitelist_hit_persists)
  then show "processPacket env rd bs a dst sport dport s2
          = whitelist_fast_path rd bs (s2\<lparr>stats := incrementPacketsProcessed (stats s2)\<rparr>)"
    by (rule processPacket_whitelist_hit)
qed

subsection \<open>Evaluation on the sample engine\<close>

lemmas eval_engine =
  constructed_def GridWatcher_init_def Logger_init_def Logger_start_def
  Logger_info_def Logger_warning_def Logger_log_def LOG_QUEUE_CAPACITY_def createDefault_def
  sample_components_def MitigationEngine_init_def Statistics_init_def
  MetricsManager_init_def BloomFilter_init_def BloomFilter_add_def BloomFilter_contains_def
  bloom_positions_def BLOOM_HASHES_def BLOOM_BITS_def upt_rec
  addWhitelist_def removeWhitelist_def blockIP_def
  MitigationEngine_addWhitelist_def MitigationEngine_removeWhitelist_def
  MitigationEngine_blockIP_def isWhitelisted_def isBlocked_def isExpired_def
  sample_address_def sample_readings_def

theorem removeWhitelist_keeps_fast_path_witness:
  "sample_address \<in> set (whitelisted_ips (createDefault\<lparr>whitelisted_ips := [sample_address]\<rparr>))
   \<and> fst (processPacket sample_components sample_readings (replicate 5 0) sample_address 20
            5000 502
            (run_calls sample_components [CleanupRound 3]
               (removeWhitelist sample_components 2 sample_address
                  (run_calls sample_components []
                     (constructed sample_components
                        (createDefault\<lparr>whitelisted_ips := [sample_address]\<rparr>))))))
   \<and> \<not> isWhitelisted (mitigation sample_unlisted) sample_address
   \<and> fst (processPacket sample_components sample_readings (replicate 5 0) sample_address 20
            5000 502 sample_unlisted)"
proof -
  have listed: "sample_address
      \<in> set (whitelisted_ips (createDefault\<lparr>whitelisted_ips := [sample_address]\<rparr>))"
    by simp
  have unlisted: "sample_unlisted
      = run_calls sample_components []
          (removeWhitelist sample_components 2 sample_address
             (run_calls sample_components []
                (addWhitelist sample_components 1 sample_address
                   (constructed sample_components createDefault))))"
    by (simp add: sample_unlisted_def run_calls_def)
  have off: "\<not> isWhitelisted (mitigation sample_unlisted) sample_address"
    by (simp add: sample_unlisted_def eval_engine)
  note C = removeWhitelist_keeps_fast_path
             [where env = sample_components and t = 2 and a = sample_address
                and rd = sample_readings and bs = "replicate 5 0" and dst = 20
                and sport = 5000 and dport = 502
                and s = "constructed sample_components createDefault" and t0 = 1
                and cfg = "createDefault\<lparr>whitelisted_ips := [sample_address]\<rparr>"]
  from C [where after = "[]" and between = "[]" and ?s1.0 = sample_unlisted] unlisted
  have one: "fst (processPacket sample_components sample_readings (replicate 5 0)
                    sample_address 20 5000 502 sample_unlisted)"
    by (simp add: whitelist_fast_path_def)
  from C [where after = "[CleanupRound 3]" and between = "[]"
            and ?s2.0 = "run_calls sample_components [CleanupRound 3]
               (removeWhitelist sample_components 2 sample_address
                  (run_calls sample_components []
                     (constructed sample_components
                        (createDefault\<lparr>whitelisted_ips := [sample_address]\<rparr>))))"] listed
  have two: "fst (processPacket sample_components sample_readings (replicate 5 0)
                    sample_address 20 5000 502
            (run_calls sample_components [CleanupRound 3]
               (removeWhitelist sample_components 2 sample_address
                  (run_calls sample_components []
                     (constructed sample_components
                        (createDefault\<lparr>whitelisted_ips := [sample_address]\<rparr>))))))"
    by (simp add: whitelist_fast_path_def)
  show ?thesis using listed off one two by simp
qed

text \<open>
  C1, at an input where the code departs from it. The address was added to the whitelist
  and removed again: it is not in the authoritative whitelist, the whitelist cache still
  passes it, and \<^verbatim>\<open>processPacket\<close> allows its packet on the fast path, without the check
  against the authoritative whitelist and without falling through to the rest of the
  pipeline, which drops the same malformed packet when it comes from an address the cache
  does not pass. The same happens to an address that was never whitelisted and shares its
  three cache bits with a whitelisted one.
\<close>

theorem whitelist_hit_allowed_unverified:
  "\<not> isWhitelisted (mitigation sample_unlisted) sample_address
   \<and> BloomFilter_contains (bloom_hash sample_components)
         (whitelisted_ips_cache sample_unlisted) sample_address
   \<and> fst (processPacket sample_components sample_readings (replicate 5 0) sample_address 20
            5000 502 sample_unlisted)
   \<and> \<not> fst (processPacket sample_components sample_readings (replicate 5 0) 77 20
            5000 502 sample_unlisted)
   \<and> \<not> isWhitelisted (mitigation sample_listed) sample_collider
   \<and> fst (processPacket sample_components sample_readings (replicate 5 0) sample_collider 20
            5000 502 sample_listed)"
  by (simp add: sample_unlisted_def sample_listed_def sample_collider_def eval_engine
          processPacket_def whitelist_fast_path_def block_short_circuit_def
          process_pipeline_def incrementPacketsProcessed_def
      buildPacketMetadata_def Let_def mitigate_def handleMitigationAction_def)

subsection \<open>The block short-circuit\<close>

lemma delete_key_keys: "fst ` set (delete_key a tbl) \<subseteq> fst ` set tbl"
  by (auto simp: delete_key_def)

lemma blockIP_keys:
  "fst ` set (blocked_ips (MitigationEngine_blockIP a why duration t m))
     \<subseteq> insert a (fst ` set (blocked_ips m))"
  using delete_key_keys [of a "blocked_ips m"]
  by (auto simp: MitigationEngine_blockIP_def Let_def delete_key_def split: option.splits)

lemma cache_covers_iff:
  "cache_covers env s \<longleftrightarrow>
     (\<forall>a. a \<in> fst ` set (blocked_ips (mitigation s)) \<longrightarrow>
        BloomFilter_contains (bloom_hash env) (blocked_ips_cache s) a)"
  by (auto simp: cache_covers_def list_all_iff)

lemma cache_covers_step:
  assumes "cache_covers env s"
    and "fst ` set (blocked_ips (mitigation s')) \<subseteq> insert a (fst ` set (blocked_ips (mitigation s)))"
    and "bits (blocked_ips_cache s) \<subseteq> bits (blocked_ips_cache s')"
    and "BloomFilter_contains (bloom_hash env) (blocked_ips_cache s') a"
  shows "cache_covers env s'"
  unfolding cache_covers_iff
proof (intro allI impI)
  fix b assume "b \<in> fst ` set (blocked_ips (mitigation s'))"
  then have "b = a \<or> b \<in> fst ` set (blocked_ips (mitigation s))" using assms(2) by auto
  then show "BloomFilter_contains (bloom_hash env) (blocked_ips_cache s') b"
  proof
    assume "b = a" then show ?thesis using assms(4) by simp
  next
    assume "b \<in> fst ` set (blocked_ips (mitigation s))"
    then have "BloomFilter_contains (bloom_hash env) (blocked_ips_cache s) b"
      using assms(1) unfolding cache_covers_iff by blast
    then show ?thesis using assms(3) by (rule BloomFilter_contains_mono)
  qed
qed

lemma cache_covers_shrink:
  assumes "cache_covers env s"
    and "fst ` set (blocked_ips (mitigation s')) \<subseteq> fst ` set (blocked_ips (mitigation s))"
    and "blocked_ips_cache s' = blocked_ips_cache s"
  shows "cache_covers env s'"
  unfolding cache_covers_iff
proof (intro allI impI)
  fix b assume "b \<in> fst ` set (blocked_ips (mitigation s'))"
  then have "b \<in> fst ` set (blocked_ips (mitigation s))" using assms(2) by blast
  then have "BloomFilter_contains (bloom_hash env) (blocked_ips_cache s) b"
    using assms(1) unfolding cache_covers_iff by blast
  then show "BloomFilter_contains (bloom_hash env) (blocked_ips_cache s') b"
    using assms(3) by simp
qed

lemma cache_covers_threats:
  "cache_covers env s \<Longrightarrow> list_all (\<lambda>thr. alert_source_ip thr = src) ths \<Longrightarrow>
   cache_covers env (snd (process_threats env rd src ths (d, s)))"
proof (induction ths arbitrary: d s)
  case Nil
  then show ?case by simp
next
  case (Cons thr rest)
  let ?s2 = "s\<lparr>stats := incrementThreatsDetected (stats s),
               logger := Logger_critical (now rd) ''ThreatDetector'' (description thr) thr
                           (logger s)\<rparr>"
  let ?res = "mitigate thr (now rd) (mitigation s)"
  let ?s3 = "handleMitigationAction env (now rd) thr (fst ?res) (?s2\<lparr>mitigation := snd ?res\<rparr>)"
  let ?s4 = "if fst ?res = BLOCK_IP
             then ?s3\<lparr>blocked_ips_cache :=
                        BloomFilter_add (bloom_hash env) src (blocked_ips_cache ?s3)\<rparr>
             else ?s3"
  have src: "alert_source_ip thr = src" and rest: "list_all (\<lambda>thr. alert_source_ip thr = src) rest"
    using Cons.prems(2) by simp_all
  have covers4: "cache_covers env ?s4"
  proof (cases "fst ?res = BLOCK_IP")
    case True
    then have m: "snd ?res = MitigationEngine_blockIP src (attack_type thr)
                    (auto_block_duration (mitigation_config (mitigation s))) (now rd) (mitigation s)"
      using src by (auto simp: mitigate_def split: if_splits)
    show ?thesis
    proof (rule cache_covers_step [OF Cons.prems(1), where a = src])
      show "fst ` set (blocked_ips (mitigation ?s4))
              \<subseteq> insert src (fst ` set (blocked_ips (mitigation s)))"
        using True blockIP_keys [of src] by (simp add: handleMitigationAction_frame m)
      show "bits (blocked_ips_cache s) \<subseteq> bits (blocked_ips_cache ?s4)"
        using True by (simp add: handleMitigationAction_frame BloomFilter_add_grows)
      show "BloomFilter_contains (bloom_hash env) (blocked_ips_cache ?s4) src"
        using True by (simp add: BloomFilter_add_contains)
    qed
  next
    case False
    then have m: "snd ?res = mitigation s"
      by (auto simp: mitigate_def split: if_splits)
    show ?thesis
      using False m
      by (intro cache_covers_shrink [OF Cons.prems(1)])
         (simp_all add: handleMitigationAction_frame)
  qed
  have unroll: "process_threats env rd src (thr # rest) (d, s)
          = process_threats env rd src rest
              (d \<or> fst ?res = DROP_PACKET \<or> fst ?res = BLOCK_IP, ?s4)"
    by (simp add: Let_def)
  show ?case unfolding unroll by (rule Cons.IH [OF covers4 rest])
qed

lemma buildPacketMetadata_source:
  "source_ip (fst (buildPacketMetadata env s t bs src dst sport dport)) = src"
  by (simp add: buildPacketMetadata_def Let_def split: option.split)

lemma cache_covers_pipeline:
  assumes "cache_covers env s" "alerts_name_source env"
  shows "cache_covers env (snd (process_pipeline env rd bs src dst sport dport s))"
proof -
  let ?meta = "fst (buildPacketMetadata env s (now rd) bs src dst sport dport)"
  let ?s1 = "s\<lparr>analyzer := snd (analyze env (analyzer s) ?meta),
               metrics := (metrics s)\<lparr>threat_detection_latency :=
                 LatencyTracker_record (threat_elapsed_ns rd)
                   (threat_detection_latency (metrics s))\<rparr>\<rparr>"
  let ?ths = "fst (analyze env (analyzer s) ?meta)"
  have "list_all (\<lambda>thr. alert_source_ip thr = source_ip ?meta) ?ths"
    using assms(2) unfolding alerts_name_source_def by blast
  then have named: "list_all (\<lambda>thr. alert_source_ip thr = src) ?ths"
    by (simp add: buildPacketMetadata_source)
  have "cache_covers env ?s1" using assms(1) by (simp add: cache_covers_def)
  then have loop: "cache_covers env (snd (process_threats env rd src ?ths (False, ?s1)))"
    using named by (rule cache_covers_threats)
  have pass: "\<And>x f g. cache_covers env x \<Longrightarrow>
          cache_covers env (recordLatency rd (x\<lparr>stats := f\<rparr>))
        \<and> cache_covers env (recordLatency rd (record_throughput rd g (x\<lparr>stats := f\<rparr>)))"
    by (simp add: cache_covers_def recordLatency_frame record_throughput_frame)
  show ?thesis
    unfolding process_pipeline_def Let_def
    using pass [OF loop] pass [OF assms(1)] by simp
qed

lemma cache_covers_processPacket:
  assumes "cache_covers env s" "alerts_name_source env"
  shows "cache_covers env (snd (processPacket env rd bs src dst sport dport s))"
proof -
  let ?s = "s\<lparr>stats := incrementPacketsProcessed (stats s)\<rparr>"
  have c: "cache_covers env ?s" using assms(1) by (simp add: cache_covers_def)
  have pipe: "cache_covers env (snd (process_pipeline env rd bs src dst sport dport ?s))"
    using c assms(2) by (rule cache_covers_pipeline)
  have fast: "cache_covers env (record_throughput rd (length bs)
                 (?s\<lparr>stats := incrementPacketsAllowed (stats ?s)\<rparr>))"
    "cache_covers env (recordLatency rd (?s\<lparr>stats := incrementPacketsDropped (stats ?s)\<rparr>))"
    using c by (simp_all add: cache_covers_def recordLatency_frame record_throughput_frame)
  show ?thesis
    unfolding
        processPacket_def whitelist_fast_path_def block_short_circuit_def
        Let_def using pipe fast by simp
qed

lemma cache_covers_run_call:
  assumes "cache_covers env s" "alerts_name_source env"
  shows "cache_covers env (run_call env c s)"
proof (cases c)
  case (ProcessPacket rd bs src dst sport dport)
  then show ?thesis using assms by (simp add: cache_covers_processPacket)
next
  case (BlockIP t a why)
  have "cache_covers env (blockIP env t a why s)"
  proof (rule cache_covers_step [OF assms(1), where a = a])
    show "fst ` set (blocked_ips (mitigation (blockIP env t a why s)))
            \<subseteq> insert a (fst ` set (blocked_ips (mitigation s)))"
      using blockIP_keys [of a] by (simp add: blockIP_def)
    show "bits (blocked_ips_cache s) \<subseteq> bits (blocked_ips_cache (blockIP env t a why s))"
      by (simp add: blockIP_def BloomFilter_add_grows)
    show "BloomFilter_contains (bloom_hash env) (blocked_ips_cache (blockIP env t a why s)) a"
      by (simp add: blockIP_def BloomFilter_add_contains)
  qed
  then show ?thesis using BlockIP by simp
next
  case (UnblockIP t a)
  have "cache_covers env (unblockIP env t a s)"
    using delete_key_keys [of a "blocked_ips (mitigation s)"]
    by (intro cache_covers_shrink [OF assms(1)])
       (simp_all add: unblockIP_def Let_def MitigationEngine_unblockIP_def)
  then show ?thesis using UnblockIP by simp
next
  case (AddWhitelist t a)
  then show ?thesis using assms(1)
    by (simp add: cache_covers_def addWhitelist_def MitigationEngine_addWhitelist_def)
next
  case (RemoveWhitelist t a)
  then show ?thesis using assms(1)
    by (simp add: cache_covers_def removeWhitelist_def MitigationEngine_removeWhitelist_def)
next
  case (CleanupRound t)
  have "cache_covers env (cleanup_round t s)"
    by (intro cache_covers_shrink [OF assms(1)])
       (auto simp: cleanup_round_def MitigationEngine_cleanup_def)
  then show ?thesis using CleanupRound by simp
qed

lemma cache_covers_run_calls:
  assumes "alerts_name_source env"
  shows "cache_covers env s \<Longrightarrow> cache_covers env (run_calls env cs s)"
  unfolding run_calls_def
  by (induction cs arbitrary: s) (simp_all add: cache_covers_run_call assms)

lemma cache_covers_constructed: "cache_covers env (constructed env cfg)"
  by (simp add: cache_covers_def constructed_fields MitigationEngine_init_def)

lemma isBlocked_key:
  "isBlocked m a t \<Longrightarrow> a \<in> fst ` set (blocked_ips m)"
  by (auto simp: isBlocked_def split: option.splits dest: map_of_SomeD intro: rev_image_eqI)

text \<open>
  Between whole calls, and for an analyzer that names the source, every address with a
  block record is in the blocked cache; the short-circuit then needs no condition on the
  cache.
\<close>

lemma blocked_source_dropped_between_calls:
  assumes "alerts_name_source env"
    and "s = run_calls env cs (constructed env cfg)"
    and "isBlocked (mitigation s) src (now rd)"
    and "\<not> BloomFilter_contains (bloom_hash env) (whitelisted_ips_cache s) src"
  shows "processPacket env rd bs src dst sport dport s
           = block_short_circuit rd (s\<lparr>stats := incrementPacketsProcessed (stats s)\<rparr>)
       \<and> \<not> fst (processPacket env rd bs src dst sport dport s)
       \<and> packets_dropped (stats (snd (processPacket env rd bs src dst sport dport s)))
           = packets_dropped (stats s) + 1"
proof -
  have "cache_covers env s"
    unfolding assms(2) using assms(1) cache_covers_constructed by (rule cache_covers_run_calls)
  then have "BloomFilter_contains (bloom_hash env) (blocked_ips_cache s) src"
    using isBlocked_key [OF assms(3)] unfolding cache_covers_iff by blast
  then show ?thesis
    using assms(3,4)
    by (simp add:
        processPacket_def whitelist_fast_path_def block_short_circuit_def
        Let_def recordLatency_frame incrementPacketsDropped_def
        incrementPacketsProcessed_def)
qed

lemma sample_alerts_name_source: "alerts_name_source sample_components"
  by (simp add: alerts_name_source_def sample_components_def)

subsection \<open>The blocked cache only grows\<close>






lemma blockIP_in_steps:
  "blockIP env t a why s = blockIP_log env t a (blockIP_cache env a (blockIP_table t a why s))"
  by (simp add: blockIP_def blockIP_log_def blockIP_cache_def blockIP_table_def)





end
